theory Spec2Isabelle
  imports Main
begin

section \<open>Data model of automation/models.py\<close>

text \<open>
  The Django models are tables of rows. A primary key is a natural number, a nullable
  foreign key a \<open>nat option\<close>, a many-to-many relation the list of the related
  primary keys. The models \<open>Agent\<close>, \<open>Site\<close>, \<open>Client\<close>, \<open>Check\<close> and
  \<open>AutomatedTask\<close> are declared outside \<open>automation/models.py\<close>; their records
  carry the fields that this file reads and writes.
\<close>

datatype mon_type = Server | Workstation

datatype sync_status = Initial | NotSynced | PendingDeletion | Synced

datatype error = DoesNotExist | IntegrityError | AttributeError

record policy =
  policy_pk :: "nat option"
  name :: string
  active :: bool
  enforced :: bool
  alert_template :: "nat option"
  excluded_sites :: "nat list"
  excluded_clients :: "nat list"
  excluded_agents :: "nat list"

record client =
  client_pk :: nat
  client_server_policy :: "nat option"
  client_workstation_policy :: "nat option"

record site =
  site_pk :: nat
  site_client :: nat
  site_block_policy_inheritance :: bool
  site_server_policy :: "nat option"
  site_workstation_policy :: "nat option"

record agent =
  agent_pk :: nat
  monitoring_type :: mon_type
  plat :: string
  block_policy_inheritance :: bool
  agent_site :: nat
  policy_id :: "nat option"

record database =
  agents :: "agent list"
  sites :: "site list"
  clients :: "client list"

section \<open>Scope of a policy: \<open>Policy.get_related\<close>\<close>

text \<open>
  The reverse relations \<open>self.agents\<close>, \<open>self.server_clients\<close>,
  \<open>self.workstation_clients\<close>, \<open>self.server_sites\<close> and
  \<open>self.workstation_sites\<close>. A policy that was never saved has no primary key and
  no row refers to it.
\<close>

definition policy_agents :: "database \<Rightarrow> policy \<Rightarrow> agent list" where
  "policy_agents db self =
     filter (\<lambda>a. policy_pk self \<noteq> None \<and> policy_id a = policy_pk self) (agents db)"

fun client_mon_policy :: "mon_type \<Rightarrow> client \<Rightarrow> nat option" where
  "client_mon_policy Server c = client_server_policy c"
| "client_mon_policy Workstation c = client_workstation_policy c"

fun site_mon_policy :: "mon_type \<Rightarrow> site \<Rightarrow> nat option" where
  "site_mon_policy Server s = site_server_policy s"
| "site_mon_policy Workstation s = site_workstation_policy s"

definition mon_type_clients :: "database \<Rightarrow> policy \<Rightarrow> mon_type \<Rightarrow> client list" where
  "mon_type_clients db self mon_type =
     filter (\<lambda>c. policy_pk self \<noteq> None \<and> client_mon_policy mon_type c = policy_pk self)
       (clients db)"

definition mon_type_sites :: "database \<Rightarrow> policy \<Rightarrow> mon_type \<Rightarrow> site list" where
  "mon_type_sites db self mon_type =
     filter (\<lambda>s. policy_pk self \<noteq> None \<and> site_mon_policy mon_type s = policy_pk self)
       (sites db)"

text \<open>
  The joins of the agent queries: \<open>site__client__in = cs\<close> holds of an agent when the
  row of its site has a client among \<open>cs\<close>, \<open>site__block_policy_inheritance = True\<close>
  when the row of its site has the flag set.
\<close>

definition site__client__in :: "database \<Rightarrow> nat list \<Rightarrow> agent \<Rightarrow> bool" where
  "site__client__in db cs a =
     list_ex (\<lambda>s. site_pk s = agent_site a \<and> site_client s \<in> set cs) (sites db)"

definition site__block_policy_inheritance :: "database \<Rightarrow> agent \<Rightarrow> bool" where
  "site__block_policy_inheritance db a =
     list_ex (\<lambda>s. site_pk s = agent_site a \<and> site_block_policy_inheritance s) (sites db)"

text \<open>\<open>agent.site\<close> and \<open>agent.client\<close>, as primary keys.\<close>

definition agent_client :: "database \<Rightarrow> agent \<Rightarrow> nat option" where
  "agent_client db a =
     map_option site_client (find (\<lambda>s. site_pk s = agent_site a) (sites db))"

definition is_agent_excluded :: "database \<Rightarrow> policy \<Rightarrow> agent \<Rightarrow> bool" where
  "is_agent_excluded db self a =
     (agent_pk a \<in> set (excluded_agents self)
      \<or> agent_site a \<in> set (excluded_sites self)
      \<or> (case agent_client db a of None \<Rightarrow> False
          | Some c \<Rightarrow> c \<in> set (excluded_clients self)))"

definition explicit_agents :: "database \<Rightarrow> policy \<Rightarrow> mon_type \<Rightarrow> agent list" where
  "explicit_agents db self mon_type =
     filter (\<lambda>a. \<not> site__client__in db (excluded_clients self) a)
       (filter (\<lambda>a. agent_site a \<notin> set (excluded_sites self))
         (filter (\<lambda>a. agent_pk a \<notin> set (excluded_agents self))
           (filter (\<lambda>a. monitoring_type a = mon_type) (policy_agents db self))))"

definition explicit_clients :: "database \<Rightarrow> policy \<Rightarrow> mon_type \<Rightarrow> client list" where
  "explicit_clients db self mon_type =
     filter (\<lambda>c. client_pk c \<notin> set (excluded_clients self))
       (mon_type_clients db self mon_type)"

definition explicit_sites :: "database \<Rightarrow> policy \<Rightarrow> mon_type \<Rightarrow> site list" where
  "explicit_sites db self mon_type =
     filter (\<lambda>s. site_pk s \<notin> set (excluded_sites self))
       (mon_type_sites db self mon_type)"

text \<open>The first query joined into \<open>filtered_agents_pks\<close>: inheritance from the site.\<close>

definition site_inherited_pks :: "database \<Rightarrow> policy \<Rightarrow> mon_type \<Rightarrow> nat list" where
  "site_inherited_pks db self mon_type =
     map agent_pk
       (filter (\<lambda>a. agent_site a \<in> set (map site_pk
                   (filter (\<lambda>site.
                        site_client site \<notin> set (map client_pk (explicit_clients db self mon_type))
                        \<and> site_client site \<notin> set (excluded_clients self))
                      (explicit_sites db self mon_type)))
                 \<and> monitoring_type a = mon_type)
         (filter (\<lambda>a. \<not> block_policy_inheritance a) (agents db)))"

text \<open>The second query: inheritance from the client.\<close>

definition client_inherited_pks :: "database \<Rightarrow> policy \<Rightarrow> mon_type \<Rightarrow> nat list" where
  "client_inherited_pks db self mon_type =
     map agent_pk
       (filter (\<lambda>a. site__client__in db (map client_pk (explicit_clients db self mon_type)) a
                 \<and> monitoring_type a = mon_type)
         (filter (\<lambda>a. \<not> site__block_policy_inheritance db a)
           (filter (\<lambda>a. \<not> block_policy_inheritance a) (agents db))))"

definition get_related :: "database \<Rightarrow> policy \<Rightarrow> mon_type \<Rightarrow> agent list" where
  "get_related db self mon_type =
     (let filtered_agents_pks =
            site_inherited_pks db self mon_type @ client_inherited_pks db self mon_type
      in filter (\<lambda>a. agent_pk a \<in> set filtered_agents_pks
                   \<or> agent_pk a \<in> set (map agent_pk (explicit_agents db self mon_type)))
           (agents db))"

definition related_agents :: "database \<Rightarrow> policy \<Rightarrow> agent list" where
  "related_agents db self =
     filter (\<lambda>a. a \<in> set (get_related db self Server) \<or> a \<in> set (get_related db self Workstation))
       (agents db)"

section \<open>\<open>Policy.save\<close>\<close>

text \<open>The background jobs that \<open>save\<close> and \<open>delete\<close> enqueue with \<open>.delay\<close>.\<close>

datatype job =
  Generate_agent_checks_task "nat option" bool
| Cache_agents_alert_template

text \<open>\<open>type(self).objects.get(pk = k)\<close>: the row, or \<open>DoesNotExist\<close>.\<close>

definition objects_get :: "policy list \<Rightarrow> nat \<Rightarrow> error + policy" where
  "objects_get objects k =
     (case find (\<lambda>p. policy_pk p = Some k) objects of
        None \<Rightarrow> Inl DoesNotExist
      | Some p \<Rightarrow> Inr p)"

text \<open>
  Modelled from the spec: \<open>BaseAuditModel.save\<close> (logs/models.py) is not among the
  source files. The spec treats persistence as an external collaborator that commits
  the row; the model stores the instance, under a fresh primary key when it has none,
  and refuses a second row of the same \<open>name\<close> (the field is declared unique).
\<close>

definition fresh_policy_pk :: "policy list \<Rightarrow> nat" where
  "fresh_policy_pk objects =
     Suc (fold max (map (\<lambda>p. case policy_pk p of None \<Rightarrow> 0 | Some k \<Rightarrow> k) objects) 0)"

definition super_save :: "policy list \<Rightarrow> policy \<Rightarrow> error + (policy list \<times> policy)" where
  "super_save objects self =
     (if list_ex (\<lambda>p. name p = name self \<and> policy_pk p \<noteq> policy_pk self) objects
      then Inl IntegrityError
      else (case policy_pk self of
              None \<Rightarrow>
                (let self' = self\<lparr>policy_pk := Some (fresh_policy_pk objects)\<rparr>
                 in Inr (objects @ [self'], self'))
            | Some k \<Rightarrow>
                (if list_ex (\<lambda>p. policy_pk p = Some k) objects
                 then Inr (map (\<lambda>p. if policy_pk p = Some k then self else p) objects, self)
                 else Inr (objects @ [self], self))))"

text \<open>\<open>old_policy = type(self).objects.get(pk=self.pk) if self.pk else None\<close>\<close>

definition get_old_policy :: "policy list \<Rightarrow> policy \<Rightarrow> error + policy option" where
  "get_old_policy objects self =
     (case policy_pk self of
        None \<Rightarrow> Inr None
      | Some k \<Rightarrow>
          (if k = 0 then Inr None
           else (case objects_get objects k of
                   Inl e \<Rightarrow> Inl e
                 | Inr p \<Rightarrow> Inr (Some p))))"

definition save_jobs :: "policy option \<Rightarrow> policy \<Rightarrow> job list" where
  "save_jobs old_policy self =
     (case old_policy of
        None \<Rightarrow> []
      | Some old \<Rightarrow>
          (if active old \<noteq> active self \<or> enforced old \<noteq> enforced self
           then [Generate_agent_checks_task (policy_pk self) True] else [])
          @ (if alert_template old \<noteq> alert_template self
             then [Cache_agents_alert_template] else []))"

text \<open>The result: the table, the saved instance and the jobs enqueued, in order.\<close>

definition save :: "policy list \<Rightarrow> policy \<Rightarrow> error + (policy list \<times> policy \<times> job list)" where
  "save objects self =
     (case get_old_policy objects self of
        Inl e \<Rightarrow> Inl e
      | Inr old_policy \<Rightarrow>
          (case super_save objects self of
             Inl e \<Rightarrow> Inl e
           | Inr (objects', self') \<Rightarrow> Inr (objects', self', save_jobs old_policy self')))"

section \<open>Checks, tasks and the policies of an agent\<close>

datatype check_type = Diskspace | Ping | Cpuload | Memory | Winsvc | Script | Eventlog

record script =
  script_id :: nat
  shell :: string

text \<open>
  Modelled from the spec: the \<open>Check\<close> and \<open>AutomatedTask\<close> models are declared
  outside the source file. The records carry the fields that the cascade reads and
  writes (with the source's spelling \<open>overriden_by_policy\<close>), and \<open>sync_status\<close>,
  which the spec's data model lists for both; the source reads and writes it for tasks
  only.
\<close>

record check =
  check_pk :: nat
  check_type :: check_type
  disk :: string
  ip :: string
  svc_name :: string
  check_script :: "script option"
  log_name :: string
  event_id :: int
  check_agent :: "nat option"
  check_policy :: "nat option"
  managed_by_policy :: bool
  parent_check :: "nat option"
  overriden_by_policy :: bool
  check_sync_status :: sync_status

record task =
  task_pk :: nat
  task_script :: "script option"
  task_agent :: "nat option"
  task_policy :: "nat option"
  task_managed_by_policy :: bool
  parent_task :: "nat option"
  task_sync_status :: sync_status

text \<open>
  The dictionary that \<open>agent.get_agent_policies()\<close> returns (the method is declared
  with the \<open>Agent\<close> model): each entry is a policy or \<open>None\<close>.
\<close>

record policies =
  agent_policy :: "policy option"
  site_policy :: "policy option"
  client_policy :: "policy option"
  default_policy :: "policy option"

text \<open>
  \<open>field__in = values\<close> of a Django query: a \<open>NULL\<close> field matches no value, and
  \<open>None\<close> among the values matches no row.
\<close>

definition pk_in :: "nat option \<Rightarrow> nat option list \<Rightarrow> bool" where
  "pk_in v vs = (v \<noteq> None \<and> v \<in> set vs)"

section \<open>\<open>Policy.cascade_policy_tasks\<close>\<close>

text \<open>The related managers \<open>policy.autotasks\<close> and \<open>agent.autotasks\<close>.\<close>

definition autotasks :: "task list \<Rightarrow> policy \<Rightarrow> task list" where
  "autotasks tbl p = filter (\<lambda>t. policy_pk p \<noteq> None \<and> task_policy t = policy_pk p) tbl"

definition agent_autotasks :: "task list \<Rightarrow> agent \<Rightarrow> task list" where
  "agent_autotasks tbl agent = filter (\<lambda>t. task_agent t = Some (agent_pk agent)) tbl"

text \<open>
  \<open>for task in ...: if task.pk not in [task.pk for task in tasks]: tasks.append(task)\<close>
\<close>

fun append_tasks :: "task list \<Rightarrow> task list \<Rightarrow> task list" where
  "append_tasks tasks [] = tasks"
| "append_tasks tasks (task # rest) =
     append_tasks
       (if task_pk task \<notin> set (map task_pk tasks) then tasks @ [task] else tasks) rest"

definition add_policy_tasks :: "task list \<Rightarrow> policy option \<Rightarrow> task list \<Rightarrow> task list" where
  "add_policy_tasks tbl pol tasks =
     (case pol of
        None \<Rightarrow> tasks
      | Some p \<Rightarrow> if active p then append_tasks tasks (autotasks tbl p) else tasks)"

definition policy_tasks :: "policies \<Rightarrow> task list \<Rightarrow> task list" where
  "policy_tasks pols tbl =
     add_policy_tasks tbl (default_policy pols)
       (add_policy_tasks tbl (client_policy pols)
         (add_policy_tasks tbl (site_policy pols)
           (add_policy_tasks tbl (agent_policy pols) [])))"

text \<open>
  \<open>[task for task in tasks if agent.is_supported_script(task.script.shell)]\<close>: a task
  without a script raises \<open>AttributeError\<close>. \<open>Agent.is_supported_script\<close> is
  declared with the \<open>Agent\<close> model and is a parameter here.
\<close>

fun supported_tasks :: "(string \<Rightarrow> bool) \<Rightarrow> task list \<Rightarrow> error + task list" where
  "supported_tasks supported [] = Inr []"
| "supported_tasks supported (task # rest) =
     (case task_script task of
        None \<Rightarrow> Inl AttributeError
      | Some s \<Rightarrow>
          (case supported_tasks supported rest of
             Inl e \<Rightarrow> Inl e
           | Inr ts \<Rightarrow> Inr (if supported (shell s) then task # ts else ts)))"

text \<open>The list \<open>tasks\<close> once line 165 has filtered it: the accepted templates.\<close>

definition resolved_tasks ::
  "agent \<Rightarrow> (agent \<Rightarrow> string \<Rightarrow> bool) \<Rightarrow> policies \<Rightarrow> task list \<Rightarrow> error + task list" where
  "resolved_tasks agent is_supported_script pols tbl =
     supported_tasks (is_supported_script agent) (policy_tasks pols tbl)"

text \<open>\<open>task.delete()\<close> and \<open>task.save()\<close> address the row by its primary key.\<close>

definition task_delete :: "task list \<Rightarrow> task \<Rightarrow> task list" where
  "task_delete tbl task = filter (\<lambda>t. task_pk t \<noteq> task_pk task) tbl"

definition task_save :: "task list \<Rightarrow> task \<Rightarrow> task list" where
  "task_save tbl task =
     (if task_pk task \<in> set (map task_pk tbl)
      then map (\<lambda>t. if task_pk t = task_pk task then task else t) tbl
      else tbl @ [task])"

fun retire_tasks :: "task list \<Rightarrow> task list \<Rightarrow> task list" where
  "retire_tasks [] tbl = tbl"
| "retire_tasks (task # rest) tbl =
     retire_tasks rest
       (if task_sync_status task = Initial then task_delete tbl task
        else task_save tbl (task\<lparr>task_sync_status := PendingDeletion\<rparr>))"

definition agent_tasks_parent_pks :: "agent \<Rightarrow> task list \<Rightarrow> nat option list" where
  "agent_tasks_parent_pks agent tbl =
     map parent_task (filter task_managed_by_policy (agent_autotasks tbl agent))"

definition task_pks :: "task list \<Rightarrow> nat option list" where
  "task_pks tasks = map (\<lambda>task. Some (task_pk task)) tasks"

text \<open>Lines 167 to 179: the tasks whose parent fell out of the accepted list.\<close>

definition remove_policy_tasks :: "agent \<Rightarrow> task list \<Rightarrow> task list \<Rightarrow> task list" where
  "remove_policy_tasks agent tasks tbl =
     retire_tasks
       (filter (\<lambda>t. pk_in (parent_task t)
                  (filter (\<lambda>taskpk. taskpk \<notin> set (task_pks tasks))
                     (agent_tasks_parent_pks agent tbl)))
          (agent_autotasks tbl agent))
       tbl"

text \<open>Lines 181 to 184: \<open>pendingdeletion\<close> becomes \<open>notsynced\<close>.\<close>

definition revive_tasks :: "agent \<Rightarrow> task list \<Rightarrow> task list \<Rightarrow> task list" where
  "revive_tasks agent tasks tbl =
     map (\<lambda>t. if task_agent t = Some (agent_pk agent)
                \<and> task_sync_status t = PendingDeletion
                \<and> pk_in (parent_task t) (task_pks tasks)
              then t\<lparr>task_sync_status := NotSynced\<rparr> else t) tbl"

text \<open>The result: the table of tasks after the call, and the list returned.\<close>

definition cascade_policy_tasks ::
  "agent \<Rightarrow> (agent \<Rightarrow> string \<Rightarrow> bool) \<Rightarrow> policies \<Rightarrow> task list
     \<Rightarrow> error + (task list \<times> task list)" where
  "cascade_policy_tasks agent is_supported_script pols tbl =
     (case resolved_tasks agent is_supported_script pols tbl of
        Inl e \<Rightarrow> Inl e
      | Inr tasks \<Rightarrow>
          Inr (revive_tasks agent tasks (remove_policy_tasks agent tasks tbl),
               filter (\<lambda>task. Some (task_pk task) \<notin> set (agent_tasks_parent_pks agent tbl))
                 tasks))"

section \<open>\<open>Policy.cascade_policy_checks\<close>\<close>

text \<open>The related managers \<open>policy.policychecks\<close> and \<open>agent.agentchecks\<close>.\<close>

definition policychecks :: "check list \<Rightarrow> policy \<Rightarrow> check list" where
  "policychecks tbl p = filter (\<lambda>c. policy_pk p \<noteq> None \<and> check_policy c = policy_pk p) tbl"

definition agentchecks :: "check list \<Rightarrow> agent \<Rightarrow> check list" where
  "agentchecks tbl agent = filter (\<lambda>c. check_agent c = Some (agent_pk agent)) tbl"

definition agent_checks :: "agent \<Rightarrow> check list \<Rightarrow> check list" where
  "agent_checks agent tbl = filter (\<lambda>c. \<not> managed_by_policy c) (agentchecks tbl agent)"

definition agent_checks_parent_pks :: "agent \<Rightarrow> check list \<Rightarrow> nat option list" where
  "agent_checks_parent_pks agent tbl =
     map parent_check (filter managed_by_policy (agentchecks tbl agent))"

text \<open>Lines 203 to 236: the checks of the active policies, enforced ones apart.\<close>

definition checks_of :: "bool \<Rightarrow> check list \<Rightarrow> policy option \<Rightarrow> check list" where
  "checks_of enf tbl pol =
     (case pol of
        None \<Rightarrow> []
      | Some p \<Rightarrow> if active p \<and> enforced p = enf then policychecks tbl p else [])"

definition enforced_checks :: "policies \<Rightarrow> check list \<Rightarrow> check list" where
  "enforced_checks pols tbl =
     checks_of True tbl (agent_policy pols) @ checks_of True tbl (site_policy pols)
     @ checks_of True tbl (client_policy pols) @ checks_of True tbl (default_policy pols)"

definition policy_checks :: "policies \<Rightarrow> check list \<Rightarrow> check list" where
  "policy_checks pols tbl =
     checks_of False tbl (agent_policy pols) @ checks_of False tbl (site_policy pols)
     @ checks_of False tbl (client_policy pols) @ checks_of False tbl (default_policy pols)"

text \<open>Line 257: the sequence that the loop runs over.\<close>

definition candidates :: "agent \<Rightarrow> policies \<Rightarrow> check list \<Rightarrow> check list" where
  "candidates agent pols tbl =
     enforced_checks pols tbl @ agent_checks agent tbl @ policy_checks pols tbl"

text \<open>
  The local lists of lines 238 to 254, and the table of checks, which \<open>check.save()\<close>
  writes to while the loop runs.
\<close>

record resolution =
  added_diskspace_checks :: "string list"
  added_ping_checks :: "string list"
  added_winsvc_checks :: "string list"
  added_script_checks :: "nat list"
  added_eventlog_checks :: "(string \<times> int) list"
  added_cpuload_checks :: "check list"
  added_memory_checks :: "check list"
  diskspace_checks :: "check list"
  ping_checks :: "check list"
  winsvc_checks :: "check list"
  script_checks :: "check list"
  eventlog_checks :: "check list"
  cpuload_checks :: "check list"
  memory_checks :: "check list"
  table :: "check list"

definition initial_resolution :: "check list \<Rightarrow> resolution" where
  "initial_resolution tbl =
     \<lparr>added_diskspace_checks = [], added_ping_checks = [], added_winsvc_checks = [],
      added_script_checks = [], added_eventlog_checks = [], added_cpuload_checks = [],
      added_memory_checks = [], diskspace_checks = [], ping_checks = [],
      winsvc_checks = [], script_checks = [], eventlog_checks = [], cpuload_checks = [],
      memory_checks = [], table = tbl\<rparr>"

text \<open>\<open>check.save()\<close> writes the row of the check's primary key.\<close>

definition check_save :: "check list \<Rightarrow> check \<Rightarrow> check list" where
  "check_save tbl check =
     (if check_pk check \<in> set (map check_pk tbl)
      then map (\<lambda>c. if check_pk c = check_pk check then check else c) tbl
      else tbl @ [check])"

text \<open>\<open>check.overriden_by_policy = True; check.save()\<close>\<close>

definition mark_overriden :: "check \<Rightarrow> check list \<Rightarrow> check list" where
  "mark_overriden check tbl = check_save tbl (check\<lparr>overriden_by_policy := True\<rparr>)"

text \<open>The seven \<open>if\<close> statements of the loop body, in the order of the source.\<close>

definition diskspace_branch :: "agent \<Rightarrow> check \<Rightarrow> resolution \<Rightarrow> resolution" where
  "diskspace_branch agent check r =
     (if check_type check = Diskspace \<and> plat agent = ''windows'' then
        (if disk check \<notin> set (added_diskspace_checks r) then
           (let r' = r\<lparr>added_diskspace_checks := added_diskspace_checks r @ [disk check]\<rparr>
            in if check_agent check = None
               then r'\<lparr>diskspace_checks := diskspace_checks r' @ [check]\<rparr> else r')
         else if check_agent check \<noteq> None
              then r\<lparr>table := mark_overriden check (table r)\<rparr> else r)
      else r)"

definition ping_branch :: "check \<Rightarrow> resolution \<Rightarrow> resolution" where
  "ping_branch check r =
     (if check_type check = Ping then
        (if ip check \<notin> set (added_ping_checks r) then
           (let r' = r\<lparr>added_ping_checks := added_ping_checks r @ [ip check]\<rparr>
            in if check_agent check = None
               then r'\<lparr>ping_checks := ping_checks r' @ [check]\<rparr> else r')
         else if check_agent check \<noteq> None
              then r\<lparr>table := mark_overriden check (table r)\<rparr> else r)
      else r)"

definition cpuload_branch :: "agent \<Rightarrow> check \<Rightarrow> resolution \<Rightarrow> resolution" where
  "cpuload_branch agent check r =
     (if check_type check = Cpuload \<and> plat agent = ''windows'' then
        (if added_cpuload_checks r = [] then
           (let r' = r\<lparr>added_cpuload_checks := added_cpuload_checks r @ [check]\<rparr>
            in if check_agent check = None
               then r'\<lparr>cpuload_checks := cpuload_checks r' @ [check]\<rparr> else r')
         else if check_agent check \<noteq> None
              then r\<lparr>table := mark_overriden check (table r)\<rparr> else r)
      else r)"

definition memory_branch :: "agent \<Rightarrow> check \<Rightarrow> resolution \<Rightarrow> resolution" where
  "memory_branch agent check r =
     (if check_type check = Memory \<and> plat agent = ''windows'' then
        (if added_memory_checks r = [] then
           (let r' = r\<lparr>added_memory_checks := added_memory_checks r @ [check]\<rparr>
            in if check_agent check = None
               then r'\<lparr>memory_checks := memory_checks r' @ [check]\<rparr> else r')
         else if check_agent check \<noteq> None
              then r\<lparr>table := mark_overriden check (table r)\<rparr> else r)
      else r)"

definition winsvc_branch :: "agent \<Rightarrow> check \<Rightarrow> resolution \<Rightarrow> resolution" where
  "winsvc_branch agent check r =
     (if check_type check = Winsvc \<and> plat agent = ''windows'' then
        (if svc_name check \<notin> set (added_winsvc_checks r) then
           (let r' = r\<lparr>added_winsvc_checks := added_winsvc_checks r @ [svc_name check]\<rparr>
            in if check_agent check = None
               then r'\<lparr>winsvc_checks := winsvc_checks r' @ [check]\<rparr> else r')
         else if check_agent check \<noteq> None
              then r\<lparr>table := mark_overriden check (table r)\<rparr> else r)
      else r)"

text \<open>
  \<open>check.script.shell\<close> raises \<open>AttributeError\<close> when a script check has no script.
\<close>

definition script_branch ::
  "agent \<Rightarrow> (agent \<Rightarrow> string \<Rightarrow> bool) \<Rightarrow> check \<Rightarrow> resolution \<Rightarrow> error + resolution" where
  "script_branch agent is_supported_script check r =
     (if check_type check = Script then
        (case check_script check of
           None \<Rightarrow> Inl AttributeError
         | Some s \<Rightarrow>
             (if is_supported_script agent (shell s) then
                (if script_id s \<notin> set (added_script_checks r) then
                   (let r' = r\<lparr>added_script_checks := added_script_checks r @ [script_id s]\<rparr>
                    in if check_agent check = None
                       then Inr (r'\<lparr>script_checks := script_checks r' @ [check]\<rparr>)
                       else Inr r')
                 else if check_agent check \<noteq> None
                      then Inr (r\<lparr>table := mark_overriden check (table r)\<rparr>) else Inr r)
              else Inr r))
      else Inr r)"

definition eventlog_branch :: "agent \<Rightarrow> check \<Rightarrow> resolution \<Rightarrow> resolution" where
  "eventlog_branch agent check r =
     (if check_type check = Eventlog \<and> plat agent = ''windows'' then
        (if (log_name check, event_id check) \<notin> set (added_eventlog_checks r) then
           (let r' = r\<lparr>added_eventlog_checks := added_eventlog_checks r @ [(log_name check, event_id check)]\<rparr>
            in if check_agent check = None
               then r'\<lparr>eventlog_checks := eventlog_checks r' @ [check]\<rparr> else r')
         else if check_agent check \<noteq> None
              then r\<lparr>table := mark_overriden check (table r)\<rparr> else r)
      else r)"

definition loop_body ::
  "agent \<Rightarrow> (agent \<Rightarrow> string \<Rightarrow> bool) \<Rightarrow> check \<Rightarrow> resolution \<Rightarrow> error + resolution" where
  "loop_body agent is_supported_script check r =
     (case script_branch agent is_supported_script check
             (winsvc_branch agent check
               (memory_branch agent check
                 (cpuload_branch agent check
                   (ping_branch check
                     (diskspace_branch agent check r))))) of
        Inl e \<Rightarrow> Inl e
      | Inr r' \<Rightarrow> Inr (eventlog_branch agent check r'))"

fun check_loop ::
  "agent \<Rightarrow> (agent \<Rightarrow> string \<Rightarrow> bool) \<Rightarrow> check list \<Rightarrow> resolution \<Rightarrow> error + resolution" where
  "check_loop agent is_supported_script [] r = Inr r"
| "check_loop agent is_supported_script (check # rest) r =
     (case loop_body agent is_supported_script check r of
        Inl e \<Rightarrow> Inl e
      | Inr r' \<Rightarrow> check_loop agent is_supported_script rest r')"

text \<open>Lines 336 to 344.\<close>

definition final_list :: "resolution \<Rightarrow> check list" where
  "final_list r =
     diskspace_checks r @ ping_checks r @ cpuload_checks r @ memory_checks r
     @ winsvc_checks r @ script_checks r @ eventlog_checks r"

text \<open>The state when the loop has run over the candidates.\<close>

definition resolve_checks ::
  "agent \<Rightarrow> (agent \<Rightarrow> string \<Rightarrow> bool) \<Rightarrow> policies \<Rightarrow> check list \<Rightarrow> error + resolution" where
  "resolve_checks agent is_supported_script pols tbl =
     check_loop agent is_supported_script (candidates agent pols tbl) (initial_resolution tbl)"

definition check_pks :: "check list \<Rightarrow> nat option list" where
  "check_pks checks = map (\<lambda>check. Some (check_pk check)) checks"

text \<open>Lines 346 to 354: the managed checks whose parent is not in \<open>final_list\<close>.\<close>

definition remove_policy_checks :: "agent \<Rightarrow> nat option list \<Rightarrow> check list \<Rightarrow> check list \<Rightarrow> check list" where
  "remove_policy_checks agent parent_pks final tbl =
     filter (\<lambda>c. \<not> (check_agent c = Some (agent_pk agent) \<and> managed_by_policy c
                    \<and> pk_in (parent_check c)
                        (filter (\<lambda>checkpk. checkpk \<notin> set (check_pks final)) parent_pks)))
       tbl"

text \<open>The result: the table of checks after the call, and the list returned.\<close>

definition cascade_policy_checks ::
  "agent \<Rightarrow> (agent \<Rightarrow> string \<Rightarrow> bool) \<Rightarrow> policies \<Rightarrow> check list
     \<Rightarrow> error + (check list \<times> check list)" where
  "cascade_policy_checks agent is_supported_script pols tbl =
     (case resolve_checks agent is_supported_script pols tbl of
        Inl e \<Rightarrow> Inl e
      | Inr r \<Rightarrow>
          Inr (remove_policy_checks agent (agent_checks_parent_pks agent tbl) (final_list r)
                 (table r),
               filter (\<lambda>check. Some (check_pk check) \<notin> set (agent_checks_parent_pks agent tbl))
                 (final_list r)))"

section \<open>Materialization: \<open>generate_policy_checks\<close> and \<open>generate_policy_tasks\<close>\<close>

text \<open>
  Modelled from the spec: \<open>Check.create_policy_check\<close> and
  \<open>AutomatedTask.create_policy_task\<close> are declared with the \<open>Check\<close> and
  \<open>AutomatedTask\<close> models, outside the source file. The spec (sections 4.4 and 6):
  the creation collaborator instantiates a concrete managed check or task on the agent,
  linking \<open>parent_check\<close> or \<open>parent_task\<close> to the template. The model stores a copy
  of the template under a fresh primary key: owned by the agent, managed, with the
  template as its parent, not overridden, never synced.
\<close>

definition fresh_check_pk :: "check list \<Rightarrow> nat" where
  "fresh_check_pk tbl = Suc (fold max (map check_pk tbl) 0)"

definition create_policy_check :: "check \<Rightarrow> agent \<Rightarrow> check list \<Rightarrow> check list" where
  "create_policy_check template agent tbl =
     tbl @ [template\<lparr>check_pk := fresh_check_pk tbl, check_agent := Some (agent_pk agent),
                    check_policy := None, managed_by_policy := True,
                    parent_check := Some (check_pk template),
                    overriden_by_policy := False, check_sync_status := Initial\<rparr>]"

definition fresh_task_pk :: "task list \<Rightarrow> nat" where
  "fresh_task_pk tbl = Suc (fold max (map task_pk tbl) 0)"

definition create_policy_task :: "task \<Rightarrow> agent \<Rightarrow> task list \<Rightarrow> task list" where
  "create_policy_task template agent tbl =
     tbl @ [template\<lparr>task_pk := fresh_task_pk tbl, task_agent := Some (agent_pk agent),
                    task_policy := None, task_managed_by_policy := True,
                    parent_task := Some (task_pk template),
                    task_sync_status := Initial\<rparr>]"

text \<open>Lines 360 to 374: the result is the table after the creations.\<close>

definition generate_policy_checks ::
  "agent \<Rightarrow> (agent \<Rightarrow> string \<Rightarrow> bool) \<Rightarrow> policies \<Rightarrow> check list \<Rightarrow> error + check list" where
  "generate_policy_checks agent is_supported_script pols tbl =
     (case cascade_policy_checks agent is_supported_script pols tbl of
        Inl e \<Rightarrow> Inl e
      | Inr (tbl', checks) \<Rightarrow>
          Inr (fold (\<lambda>check t. create_policy_check check agent t) checks tbl'))"

definition generate_policy_tasks ::
  "agent \<Rightarrow> (agent \<Rightarrow> string \<Rightarrow> bool) \<Rightarrow> policies \<Rightarrow> task list \<Rightarrow> error + task list" where
  "generate_policy_tasks agent is_supported_script pols tbl =
     (case cascade_policy_tasks agent is_supported_script pols tbl of
        Inl e \<Rightarrow> Inl e
      | Inr (tbl', tasks) \<Rightarrow>
          Inr (fold (\<lambda>task t. create_policy_task task agent t) tasks tbl'))"

section \<open>The loop of \<open>cascade_policy_checks\<close>, read as a deduplication by key\<close>

text \<open>
  What each branch of the loop compares: the disk of a diskspace check, the host of a
  ping check, the service name, the script's id, the pair of log name and event id; a
  cpuload or memory check has no field to compare, the list of those added is empty or
  not.
\<close>

datatype check_key =
  Disk_key string | Ping_key string | Cpuload_key | Memory_key | Winsvc_key string
| Script_key "nat option" | Eventlog_key string int

definition dedup_key :: "check \<Rightarrow> check_key" where
  "dedup_key c =
     (case check_type c of
        Diskspace \<Rightarrow> Disk_key (disk c)
      | Ping \<Rightarrow> Ping_key (ip c)
      | Cpuload \<Rightarrow> Cpuload_key
      | Memory \<Rightarrow> Memory_key
      | Winsvc \<Rightarrow> Winsvc_key (svc_name c)
      | Script \<Rightarrow> Script_key (map_option script_id (check_script c))
      | Eventlog \<Rightarrow> Eventlog_key (log_name c) (event_id c))"

text \<open>The platform guard of the branch of the check's type.\<close>

definition applies :: "agent \<Rightarrow> (agent \<Rightarrow> string \<Rightarrow> bool) \<Rightarrow> check \<Rightarrow> bool" where
  "applies agent is_supported_script c =
     (case check_type c of
        Ping \<Rightarrow> True
      | Script \<Rightarrow> (case check_script c of None \<Rightarrow> False
                  | Some s \<Rightarrow> is_supported_script agent (shell s))
      | _ \<Rightarrow> plat agent = ''windows'')"

text \<open>The check on which line 313 raises.\<close>

definition raises :: "check \<Rightarrow> bool" where
  "raises c = (check_type c = Script \<and> check_script c = None)"

text \<open>The keys that the lists \<open>added_..._checks\<close> hold, and the list of a type.\<close>

definition seen :: "resolution \<Rightarrow> check_key set" where
  "seen r =
     Disk_key ` set (added_diskspace_checks r) \<union> Ping_key ` set (added_ping_checks r)
     \<union> Winsvc_key ` set (added_winsvc_checks r)
     \<union> (\<lambda>i. Script_key (Some i)) ` set (added_script_checks r)
     \<union> (\<lambda>(l, e). Eventlog_key l e) ` set (added_eventlog_checks r)
     \<union> (if added_cpuload_checks r = [] then {} else {Cpuload_key})
     \<union> (if added_memory_checks r = [] then {} else {Memory_key})"

definition bucket :: "check_type \<Rightarrow> resolution \<Rightarrow> check list" where
  "bucket t r =
     (case t of
        Diskspace \<Rightarrow> diskspace_checks r
      | Ping \<Rightarrow> ping_checks r
      | Cpuload \<Rightarrow> cpuload_checks r
      | Memory \<Rightarrow> memory_checks r
      | Winsvc \<Rightarrow> winsvc_checks r
      | Script \<Rightarrow> script_checks r
      | Eventlog \<Rightarrow> eventlog_checks r)"

text \<open>
  The templates that a run over the candidates appends to its lists, and the
  candidates that it marks, from a set of keys already added.
\<close>

fun accepted :: "agent \<Rightarrow> (agent \<Rightarrow> string \<Rightarrow> bool) \<Rightarrow> check_key set \<Rightarrow> check list \<Rightarrow> check list" where
  "accepted agent iss S [] = []"
| "accepted agent iss S (c # cs) =
     (if applies agent iss c then
        (if dedup_key c \<in> S then accepted agent iss S cs
         else (if check_agent c = None then [c] else [])
              @ accepted agent iss (insert (dedup_key c) S) cs)
      else accepted agent iss S cs)"

fun overridden :: "agent \<Rightarrow> (agent \<Rightarrow> string \<Rightarrow> bool) \<Rightarrow> check_key set \<Rightarrow> check list \<Rightarrow> check list" where
  "overridden agent iss S [] = []"
| "overridden agent iss S (c # cs) =
     (if applies agent iss c then
        (if dedup_key c \<in> S
         then (if check_agent c \<noteq> None then [c] else []) @ overridden agent iss S cs
         else overridden agent iss (insert (dedup_key c) S) cs)
      else overridden agent iss S cs)"


definition keys_of :: "agent \<Rightarrow> (agent \<Rightarrow> string \<Rightarrow> bool) \<Rightarrow> check list \<Rightarrow> check_key set" where
  "keys_of agent iss cs = dedup_key ` set (filter (applies agent iss) cs)"


text \<open>What one pass of the loop body does to the keys, the lists and the table.\<close>

definition effect :: "agent \<Rightarrow> (agent \<Rightarrow> string \<Rightarrow> bool) \<Rightarrow> check \<Rightarrow> resolution \<Rightarrow> resolution \<Rightarrow> bool" where
  "effect agent iss c r r' =
     (seen r' = (if applies agent iss c then insert (dedup_key c) (seen r) else seen r)
     \<and> (\<forall>t. bucket t r' = bucket t r @
            (if applies agent iss c \<and> dedup_key c \<notin> seen r \<and> check_agent c = None
                \<and> check_type c = t then [c] else []))
     \<and> table r' = (if applies agent iss c \<and> dedup_key c \<in> seen r \<and> check_agent c \<noteq> None
                   then mark_overriden c (table r) else table r))"


section \<open>Closed forms of the task cascade\<close>

text \<open>
  The table once the loop of lines 168 to 179 has run over the rows \<open>Q\<close>: those
  never synced are gone, the others wait for deletion.
\<close>

definition retired :: "task set \<Rightarrow> task list \<Rightarrow> task list" where
  "retired Q tbl =
     map (\<lambda>t. if t \<in> Q then t\<lparr>task_sync_status := PendingDeletion\<rparr> else t)
       (filter (\<lambda>t. \<not> (t \<in> Q \<and> task_sync_status t = Initial)) tbl)"

text \<open>The rows that lines 168 to 174 select.\<close>

definition stale_tasks :: "agent \<Rightarrow> task list \<Rightarrow> task list \<Rightarrow> task list" where
  "stale_tasks agent tasks tbl =
     filter (\<lambda>t. pk_in (parent_task t)
                  (filter (\<lambda>taskpk. taskpk \<notin> set (task_pks tasks))
                     (agent_tasks_parent_pks agent tbl)))
          (agent_autotasks tbl agent)"

section \<open>Closed forms of the check cascade\<close>

text \<open>
  The table once the loop has saved the checks \<open>M\<close> as overridden, and the lists of
  the seven types joined in the order of lines 336 to 344.
\<close>

definition marked :: "check set \<Rightarrow> check list \<Rightarrow> check list" where
  "marked M tbl = map (\<lambda>c. if c \<in> M then c\<lparr>overriden_by_policy := True\<rparr> else c) tbl"

definition type_order :: "check_type list" where
  "type_order = [Diskspace, Ping, Cpuload, Memory, Winsvc, Script, Eventlog]"

definition by_type :: "check list \<Rightarrow> check list" where
  "by_type cs = concat (map (\<lambda>t. filter (\<lambda>c. check_type c = t) cs) type_order)"

section \<open>Rows between two runs of the resolution\<close>

text \<open>
  The rows that the creations add for the templates \<open>new\<close>, and a row after the loop
  has saved the checks \<open>M\<close> as overridden.
\<close>

definition created_for :: "agent \<Rightarrow> check list \<Rightarrow> check list \<Rightarrow> bool" where
  "created_for agent new created =
     (map parent_check created = check_pks new
      \<and> list_all (\<lambda>x. check_agent x = Some (agent_pk agent) \<and> check_policy x = None
                     \<and> managed_by_policy x) created)"

definition mark_in :: "check set \<Rightarrow> check \<Rightarrow> check" where
  "mark_in M c = (if c \<in> M then c\<lparr>overriden_by_policy := True\<rparr> else c)"

text \<open>
  The same for the tasks: the rows that the creations add, and a row after the
  retirement of the rows \<open>Q\<close> and after the revival.
\<close>

definition created_tasks_for :: "agent \<Rightarrow> task list \<Rightarrow> task list \<Rightarrow> bool" where
  "created_tasks_for agent new created =
     (map parent_task created = task_pks new
      \<and> list_all (\<lambda>x. task_agent x = Some (agent_pk agent) \<and> task_policy x = None
                     \<and> task_managed_by_policy x \<and> task_sync_status x = Initial) created)"

definition retire_in :: "task set \<Rightarrow> task \<Rightarrow> task" where
  "retire_in Q t = (if t \<in> Q then t\<lparr>task_sync_status := PendingDeletion\<rparr> else t)"

definition revive_in :: "agent \<Rightarrow> task list \<Rightarrow> task \<Rightarrow> task" where
  "revive_in agent tasks t =
     (if task_agent t = Some (agent_pk agent) \<and> task_sync_status t = PendingDeletion
         \<and> pk_in (parent_task t) (task_pks tasks)
      then t\<lparr>task_sync_status := NotSynced\<rparr> else t)"

section \<open>Example inputs\<close>

text \<open>
  One policy, and a server agent in site 1 of client 1. The site is assigned the
  policy; the parameters are the site's \<open>block_policy_inheritance\<close> and the policy
  assigned to the client.
\<close>

definition scope_policy :: policy where
  "scope_policy =
     \<lparr>policy_pk = Some 1, name = ''p'', active = True, enforced = False,
      alert_template = None, excluded_sites = [], excluded_clients = [],
      excluded_agents = []\<rparr>"

definition scope_db :: "bool \<Rightarrow> nat option \<Rightarrow> database" where
  "scope_db site_blocks client_pol =
     \<lparr>agents = [\<lparr>agent_pk = 1, monitoring_type = Server, plat = ''windows'',
                  block_policy_inheritance = False, agent_site = 1, policy_id = None\<rparr>],
      sites = [\<lparr>site_pk = 1, site_client = 1, site_block_policy_inheritance = site_blocks,
                 site_server_policy = Some 1, site_workstation_policy = None\<rparr>],
      clients = [\<lparr>client_pk = 1, client_server_policy = client_pol,
                   client_workstation_policy = None\<rparr>]\<rparr>"

text \<open>
  A windows server agent, a platform's shells for \<open>is_supported_script\<close>, rows of the
  table of checks (a template of a policy, a check of the agent's own, a check made from
  a template), and the policies of an agent found on its site and on its client.
\<close>

definition windows_agent :: agent where
  "windows_agent =
     \<lparr>agent_pk = 1, monitoring_type = Server, plat = ''windows'',
      block_policy_inheritance = False, agent_site = 1, policy_id = None\<rparr>"

definition shells :: "agent \<Rightarrow> string \<Rightarrow> bool" where
  "shells agent sh =
     (if plat agent = ''windows'' then sh \<in> set [''cmd'', ''powershell''] else sh = ''shell'')"

definition template :: "nat \<Rightarrow> check_type \<Rightarrow> string \<Rightarrow> nat \<Rightarrow> check" where
  "template k t key p =
     \<lparr>check_pk = k, check_type = t, disk = key, ip = key, svc_name = key,
      check_script = None, log_name = key, event_id = 0, check_agent = None,
      check_policy = Some p, managed_by_policy = False, parent_check = None,
      overriden_by_policy = False, check_sync_status = Synced\<rparr>"

definition direct :: "nat \<Rightarrow> check_type \<Rightarrow> string \<Rightarrow> nat \<Rightarrow> check" where
  "direct k t key a = (template k t key 0)\<lparr>check_agent := Some a, check_policy := None\<rparr>"

definition managed :: "nat \<Rightarrow> check_type \<Rightarrow> string \<Rightarrow> nat \<Rightarrow> nat \<Rightarrow> sync_status \<Rightarrow> check" where
  "managed k t key a parent st =
     (direct k t key a)\<lparr>managed_by_policy := True, parent_check := Some parent,
        check_sync_status := st\<rparr>"

definition stack :: "policy option \<Rightarrow> policy option \<Rightarrow> policies" where
  "stack site_pol client_pol =
     \<lparr>agent_policy = None, site_policy = site_pol, client_policy = client_pol,
      default_policy = None\<rparr>"

text \<open>
  An enforced policy 1 on the site and a policy 2 on the client, each with a ping check
  of the host \<open>h\<close>, which the agent checks itself too.
\<close>

definition ping_stack :: policies where
  "ping_stack =
     stack (Some (scope_policy\<lparr>enforced := True\<rparr>)) (Some (scope_policy\<lparr>policy_pk := Some 2\<rparr>))"

definition ping_table :: "check list" where
  "ping_table = [template 1 Ping ''h'' 1, direct 2 Ping ''h'' 1, template 3 Ping ''h'' 2]"

text \<open>Two policies that both check the drive \<open>C:\<close>; the first pings a host too.\<close>

definition disk_stack :: policies where
  "disk_stack = stack (Some scope_policy) (Some (scope_policy\<lparr>policy_pk := Some 2\<rparr>))"

definition disk_table :: "check list" where
  "disk_table =
     [template 1 Ping ''h'' 1, template 2 Diskspace ''C:'' 1, template 3 Diskspace ''C:'' 2]"

text \<open>
  A linux agent, a script check of a policy, and rows of the table of tasks: a template
  of a policy and a task made from a template.
\<close>

definition linux_agent :: agent where
  "linux_agent = windows_agent\<lparr>plat := ''linux''\<rparr>"

definition script_template :: "nat \<Rightarrow> string \<Rightarrow> nat \<Rightarrow> check" where
  "script_template k sh p =
     (template k Script [] p)\<lparr>check_script := Some \<lparr>script_id = k, shell = sh\<rparr>\<rparr>"

definition task_template :: "nat \<Rightarrow> string \<Rightarrow> nat \<Rightarrow> task" where
  "task_template k sh p =
     \<lparr>task_pk = k, task_script = Some \<lparr>script_id = k, shell = sh\<rparr>, task_agent = None,
      task_policy = Some p, task_managed_by_policy = False, parent_task = None,
      task_sync_status = Synced\<rparr>"

definition managed_task :: "nat \<Rightarrow> nat \<Rightarrow> nat \<Rightarrow> sync_status \<Rightarrow> task" where
  "managed_task k a parent st =
     \<lparr>task_pk = k, task_script = Some \<lparr>script_id = parent, shell = ''shell''\<rparr>,
      task_agent = Some a, task_policy = None, task_managed_by_policy = True,
      parent_task = Some parent, task_sync_status = st\<rparr>"

text \<open>A policy with a diskspace check and two script checks, and with two tasks.\<close>

definition linux_table :: "check list" where
  "linux_table =
     [template 1 Diskspace ''C:'' 1, script_template 2 ''powershell'' 1,
      script_template 3 ''shell'' 1]"

definition linux_tasks :: "task list" where
  "linux_tasks = [task_template 1 ''powershell'' 1, task_template 2 ''shell'' 1]"

text \<open>A policy with two ping checks, of which the agent has the first already.\<close>

definition half_table :: "check list" where
  "half_table =
     [template 1 Ping ''h'' 1, template 2 Ping ''g'' 1, managed 3 Ping ''h'' 1 1 Synced]"

text \<open>A policy with one task, and a task of the agent made from a template that is gone.\<close>

definition stale_tasks_table :: "task list" where
  "stale_tasks_table = [task_template 1 ''cmd'' 1, managed_task 2 1 9 Synced]"

text \<open>
  The example of the spec's section 8: the enforced policy 1 checks the drive \<open>C:\<close>,
  policy 2 checks \<open>C:\<close> and \<open>D:\<close>, and the agent checks \<open>C:\<close> itself. Then
  two policies and the agent's own check of \<open>C:\<close>, and an enforced policy and the
  agent's own check of \<open>C:\<close>.
\<close>

definition section8_table :: "check list" where
  "section8_table =
     [template 1 Diskspace ''C:'' 1, template 2 Diskspace ''C:'' 2,
      template 3 Diskspace ''D:'' 2, direct 4 Diskspace ''C:'' 1]"

definition own_disk_table :: "check list" where
  "own_disk_table =
     [direct 1 Diskspace ''C:'' 1, template 2 Diskspace ''C:'' 1, template 3 Diskspace ''C:'' 2]"

definition linux_disk_table :: "check list" where
  "linux_disk_table = [template 1 Diskspace ''C:'' 1, direct 2 Diskspace ''C:'' 1]"

section \<open>Scope resolution\<close>

lemmas get_related_defs = get_related_def site_inherited_pks_def client_inherited_pks_def
  explicit_agents_def explicit_clients_def explicit_sites_def mon_type_clients_def
  mon_type_sites_def policy_agents_def site__client__in_def site__block_policy_inheritance_def

lemma same_agent:
  assumes "distinct (map agent_pk (agents db))" "a \<in> set (agents db)" "b \<in> set (agents db)"
    "agent_pk b = agent_pk a"
  shows "b = a"
  using assms by (auto simp: distinct_map inj_on_def)

lemma site_inherited_pksD:
  assumes "k \<in> set (site_inherited_pks db self mon_type)"
  shows "\<exists>b \<in> set (agents db). agent_pk b = k \<and> \<not> block_policy_inheritance b"
  using assms unfolding site_inherited_pks_def by auto

lemma client_inherited_pksD:
  assumes "k \<in> set (client_inherited_pks db self mon_type)"
  shows "\<exists>b \<in> set (agents db). agent_pk b = k \<and> \<not> block_policy_inheritance b
     \<and> \<not> site__block_policy_inheritance db b
     \<and> site__client__in db (map client_pk (explicit_clients db self mon_type)) b"
  using assms unfolding client_inherited_pks_def by auto

lemma explicit_agentsD:
  assumes "b \<in> set (explicit_agents db self mon_type)"
  shows "b \<in> set (agents db) \<and> policy_id b = policy_pk self \<and> policy_pk self \<noteq> None
    \<and> \<not> site__client__in db (excluded_clients self) b"
  using assms unfolding explicit_agents_def policy_agents_def by auto

lemma get_relatedD:
  assumes "a \<in> set (get_related db self mon_type)"
  shows "a \<in> set (agents db) \<and> (agent_pk a \<in> set (site_inherited_pks db self mon_type)
     \<or> agent_pk a \<in> set (client_inherited_pks db self mon_type)
     \<or> agent_pk a \<in> agent_pk ` set (explicit_agents db self mon_type))"
  using assms unfolding get_related_def Let_def by auto

lemma get_related_agent_blocks:
  assumes "distinct (map agent_pk (agents db))"
    and "block_policy_inheritance a" and "a \<in> set (get_related db self mon_type)"
  shows "a \<in> set (explicit_agents db self mon_type)"
proof -
  from get_relatedD[OF assms(3)] have a: "a \<in> set (agents db)"
    and cases: "agent_pk a \<in> set (site_inherited_pks db self mon_type)
     \<or> agent_pk a \<in> set (client_inherited_pks db self mon_type)
     \<or> agent_pk a \<in> agent_pk ` set (explicit_agents db self mon_type)" by simp_all
  have "agent_pk a \<notin> set (site_inherited_pks db self mon_type)"
  proof
    assume "agent_pk a \<in> set (site_inherited_pks db self mon_type)"
    from site_inherited_pksD[OF this] obtain b where "b \<in> set (agents db)" "agent_pk b = agent_pk a"
      "\<not> block_policy_inheritance b" by blast
    with same_agent[OF assms(1) a] assms(2) show False by blast
  qed
  moreover have "agent_pk a \<notin> set (client_inherited_pks db self mon_type)"
  proof
    assume "agent_pk a \<in> set (client_inherited_pks db self mon_type)"
    from client_inherited_pksD[OF this] obtain b where "b \<in> set (agents db)" "agent_pk b = agent_pk a"
      "\<not> block_policy_inheritance b" by blast
    with same_agent[OF assms(1) a] assms(2) show False by blast
  qed
  ultimately obtain b where b: "b \<in> set (explicit_agents db self mon_type)" "agent_pk b = agent_pk a"
    using cases by auto
  from explicit_agentsD[OF b(1)] have "b \<in> set (agents db)" by simp
  with same_agent[OF assms(1) a this b(2)] b(1) show ?thesis by simp
qed

lemma get_related_site_blocks:
  assumes "distinct (map agent_pk (agents db))" 
    and "site__block_policy_inheritance db a" and "a \<in> set (agents db)"
  shows "agent_pk a \<notin> set (client_inherited_pks db self mon_type)"
proof
  assume "agent_pk a \<in> set (client_inherited_pks db self mon_type)"
  from client_inherited_pksD[OF this] obtain b where "b \<in> set (agents db)" "agent_pk b = agent_pk a"
      "\<not> site__block_policy_inheritance db b" by blast
  with same_agent[OF assms(1) assms(3)] assms(2) show False by blast
qed

lemma same_site:
  assumes "distinct (map site_pk (sites db))" "s \<in> set (sites db)" "s' \<in> set (sites db)"
    "site_pk s' = site_pk s"
  shows "s' = s"
  using assms by (auto simp: distinct_map inj_on_def)

lemma site__client__inD:
  assumes "site__client__in db cs a"
  shows "\<exists>s \<in> set (sites db). site_pk s = agent_site a \<and> site_client s \<in> set cs"
  using assms unfolding site__client__in_def list_ex_iff by blast

lemma explicit_clients_not_excluded:
  assumes "k \<in> set (map client_pk (explicit_clients db self mon_type))"
  shows "k \<notin> set (excluded_clients self)"
  using assms unfolding explicit_clients_def by auto

lemma site_inherited_pks_client:
  assumes "k \<in> set (site_inherited_pks db self mon_type)"
  shows "\<exists>b \<in> set (agents db). agent_pk b = k
     \<and> (\<exists>s \<in> set (sites db). site_pk s = agent_site b \<and> site_client s \<notin> set (excluded_clients self))"
  using assms unfolding site_inherited_pks_def explicit_sites_def mon_type_sites_def by auto

text \<open>
  The part of exclusion that \<open>get_related\<close> keeps on every path: an agent whose client
  is excluded is in no scope.
\<close>

lemma get_related_excluded_client:
  assumes da: "distinct (map agent_pk (agents db))" and ds: "distinct (map site_pk (sites db))"
    and excl: "site__client__in db (excluded_clients self) a"
  shows "a \<notin> set (get_related db self mon_type)"
proof
  assume rel: "a \<in> set (get_related db self mon_type)"
  from site__client__inD[OF excl] obtain s where s: "s \<in> set (sites db)"
    "site_pk s = agent_site a" "site_client s \<in> set (excluded_clients self)" by blast
  from get_relatedD[OF rel] have a: "a \<in> set (agents db)"
    and cases: "agent_pk a \<in> set (site_inherited_pks db self mon_type)
     \<or> agent_pk a \<in> set (client_inherited_pks db self mon_type)
     \<or> agent_pk a \<in> agent_pk ` set (explicit_agents db self mon_type)" by simp_all
  from cases show False
  proof (elim disjE)
    assume "agent_pk a \<in> set (site_inherited_pks db self mon_type)"
    from site_inherited_pks_client[OF this] obtain b s' where b: "b \<in> set (agents db)"
      "agent_pk b = agent_pk a" and s': "s' \<in> set (sites db)" "site_pk s' = agent_site b"
      "site_client s' \<notin> set (excluded_clients self)" by blast
    from same_agent[OF da a b] have "b = a" .
    with s' s(2) have "site_pk s' = site_pk s" by simp
    from same_site[OF ds s(1) s'(1) this] s(3) s'(3) show False by simp
  next
    assume "agent_pk a \<in> set (client_inherited_pks db self mon_type)"
    from client_inherited_pksD[OF this] obtain b where b: "b \<in> set (agents db)"
      "agent_pk b = agent_pk a"
      and c: "site__client__in db (map client_pk (explicit_clients db self mon_type)) b" by blast
    from same_agent[OF da a b] have ba: "b = a" .
    from site__client__inD[OF c] obtain s' where s': "s' \<in> set (sites db)"
      "site_pk s' = agent_site b"
      "site_client s' \<in> set (map client_pk (explicit_clients db self mon_type))" by blast
    from s'(2) ba s(2) have "site_pk s' = site_pk s" by simp
    from same_site[OF ds s(1) s'(1) this] s(3) explicit_clients_not_excluded[OF s'(3)]
    show False by simp
  next
    assume "agent_pk a \<in> agent_pk ` set (explicit_agents db self mon_type)"
    then obtain b where b: "b \<in> set (explicit_agents db self mon_type)"
      "agent_pk b = agent_pk a" by auto
    from explicit_agentsD[OF b(1)] have bin: "b \<in> set (agents db)"
      and nb: "\<not> site__client__in db (excluded_clients self) b" by simp_all
    from same_agent[OF da a bin b(2)] excl nb show False by simp
  qed
qed

text \<open>
  C1. Exclusion always wins in scope resolution: an agent that is among the policy's
  excluded agents, or whose site or client is excluded, is not in
  \<open>get_related\<close>, also when the policy is assigned to it, to its site or to its
  client. The source applies the three exclusions to the agents assigned the policy
  (lines 81 to 85), the exclusion of agents on no inherited path and the exclusion of
  sites not on the client's path: an excluded agent is in the scope through its site,
  and an agent of an excluded site through its client.
\<close>

theorem get_related_keeps_excluded_agent:
  "map agent_pk (get_related (scope_db False None)
       (scope_policy\<lparr>excluded_agents := [1]\<rparr>) Server) = [1]
   \<and> list_all (is_agent_excluded (scope_db False None) (scope_policy\<lparr>excluded_agents := [1]\<rparr>))
       (get_related (scope_db False None) (scope_policy\<lparr>excluded_agents := [1]\<rparr>) Server)
   \<and> map agent_pk (get_related (scope_db False (Some 1))
       (scope_policy\<lparr>excluded_sites := [1]\<rparr>) Server) = [1]
   \<and> list_all (is_agent_excluded (scope_db False (Some 1)) (scope_policy\<lparr>excluded_sites := [1]\<rparr>))
       (get_related (scope_db False (Some 1)) (scope_policy\<lparr>excluded_sites := [1]\<rparr>) Server)"
  by (simp add: get_related_defs is_agent_excluded_def agent_client_def scope_db_def
      scope_policy_def)

text \<open>
  C8. Inheritance blocking: an agent that blocks inheritance is in the scope only when
  the policy is assigned to it (\<open>get_related_agent_blocks\<close>), and a site that blocks
  inheritance blocks the client's path (\<open>get_related_site_blocks\<close>) but not a policy
  assigned to the site. The source drops from the site's path every site whose client
  is assigned the same policy (line 103), and from the client's path every agent of a
  blocking site (line 113): with the policy on the site and on its client, the agent
  of a blocking site is in no scope, while it is when the site does not block or when
  the client has no policy.
\<close>

theorem get_related_blocking_site_loses_site_policy:
  "get_related (scope_db True (Some 1)) scope_policy Server = []
   \<and> map agent_pk (get_related (scope_db False (Some 1)) scope_policy Server) = [1]
   \<and> map agent_pk (get_related (scope_db True None) scope_policy Server) = [1]"
  by (simp add: get_related_defs scope_db_def scope_policy_def)

section \<open>Saving a policy\<close>

lemma super_save_fields:
  assumes "super_save objects self = Inr (objects', self')"
  shows "active self' = active self \<and> enforced self' = enforced self
     \<and> alert_template self' = alert_template self"
  using assms by (auto simp: super_save_def Let_def split: if_splits option.splits)

lemma super_save_stored:
  assumes "super_save objects self = Inr (objects', self')" and "policy_pk self \<noteq> None"
  shows "self' = self"
  using assms by (auto simp: super_save_def Let_def split: if_splits option.splits)

lemma objects_get_Inr:
  assumes "objects_get objects k = Inr p"
  shows "p \<in> set objects \<and> policy_pk p = Some k"
proof -
  from assms have "find (\<lambda>p. policy_pk p = Some k) objects = Some p"
    by (simp add: objects_get_def split: option.splits)
  then show ?thesis by (auto simp: find_Some_iff)
qed

lemma save_jobs_old:
  assumes "save objects self = Inr (objects', self', jobs)" and "jobs \<noteq> []"
  shows "\<exists>old \<in> set objects. policy_pk old = policy_pk self \<and> policy_pk self \<noteq> None
     \<and> jobs = save_jobs (Some old) self"
proof -
  from assms(1) obtain old_policy where o: "get_old_policy objects self = Inr old_policy"
    and s: "super_save objects self = Inr (objects', self')"
    and j: "jobs = save_jobs old_policy self'"
    by (auto simp: save_def split: sum.splits)
  from j assms(2) obtain old where old: "old_policy = Some old"
    by (cases old_policy) (auto simp: save_jobs_def)
  with o obtain k where k: "policy_pk self = Some k" "objects_get objects k = Inr old"
    by (auto simp: get_old_policy_def split: option.splits if_splits sum.splits)
  from super_save_stored[OF s] k(1) j old have "jobs = save_jobs (Some old) self"
    by simp
  with objects_get_Inr[OF k(2)] k(1) show ?thesis by auto
qed

text \<open>
  C10. Saving a policy that has no primary key enqueues no job, whatever its
  \<open>active\<close>, \<open>enforced\<close> and \<open>alert_template\<close> are: the save stores the row and
  returns, or fails on the unique name. A save enqueues the re-resolution of the
  agents only when the stored row of the same primary key differs in \<open>active\<close> or
  \<open>enforced\<close>, and the refresh of the alert templates only when it differs in
  \<open>alert_template\<close>.
\<close>

theorem save_new_policy_enqueues_nothing:
  "(policy_pk self = None \<longrightarrow>
      save objects self = Inl IntegrityError
      \<or> (\<exists>objects' self'. save objects self = Inr (objects', self', [])))
   \<and> (save objects self = Inr (objects', self', jobs) \<longrightarrow>
        (Generate_agent_checks_task k create_tasks \<in> set jobs \<longrightarrow>
           (\<exists>old \<in> set objects. policy_pk old = policy_pk self \<and> policy_pk self \<noteq> None
              \<and> (active old \<noteq> active self \<or> enforced old \<noteq> enforced self)))
        \<and> (Cache_agents_alert_template \<in> set jobs \<longrightarrow>
           (\<exists>old \<in> set objects. policy_pk old = policy_pk self \<and> policy_pk self \<noteq> None
              \<and> alert_template old \<noteq> alert_template self)))"
proof (intro conjI impI)
  assume "policy_pk self = None"
  then show "save objects self = Inl IntegrityError
      \<or> (\<exists>objects' self'. save objects self = Inr (objects', self', []))"
    by (auto simp: save_def get_old_policy_def super_save_def save_jobs_def Let_def)
next
  assume s: "save objects self = Inr (objects', self', jobs)"
    and g: "Generate_agent_checks_task k create_tasks \<in> set jobs"
  then have "jobs \<noteq> []" by auto
  from save_jobs_old[OF s this] g
  show "\<exists>old \<in> set objects. policy_pk old = policy_pk self \<and> policy_pk self \<noteq> None
              \<and> (active old \<noteq> active self \<or> enforced old \<noteq> enforced self)"
    by (auto simp: save_jobs_def split: if_splits)
next
  assume s: "save objects self = Inr (objects', self', jobs)"
    and g: "Cache_agents_alert_template \<in> set jobs"
  then have "jobs \<noteq> []" by auto
  from save_jobs_old[OF s this] g
  show "\<exists>old \<in> set objects. policy_pk old = policy_pk self \<and> policy_pk self \<noteq> None
              \<and> alert_template old \<noteq> alert_template self"
    by (auto simp: save_jobs_def split: if_splits)
qed

theorem save_new_policy_enqueues_nothing_witness:
  "save [scope_policy] (scope_policy\<lparr>policy_pk := None, name := ''q'', enforced := True\<rparr>)
     = Inr ([scope_policy, scope_policy\<lparr>policy_pk := Some 2, name := ''q'', enforced := True\<rparr>],
            scope_policy\<lparr>policy_pk := Some 2, name := ''q'', enforced := True\<rparr>, [])
   \<and> save [scope_policy] (scope_policy\<lparr>enforced := True\<rparr>)
     = Inr ([scope_policy\<lparr>enforced := True\<rparr>], scope_policy\<lparr>enforced := True\<rparr>,
            [Generate_agent_checks_task (Some 1) True])
   \<and> (\<exists>old \<in> set [scope_policy]. policy_pk old = policy_pk (scope_policy\<lparr>enforced := True\<rparr>)
         \<and> enforced old \<noteq> enforced (scope_policy\<lparr>enforced := True\<rparr>))"
proof -
  have new: "save [scope_policy] (scope_policy\<lparr>policy_pk := None, name := ''q'', enforced := True\<rparr>)
     = Inr ([scope_policy, scope_policy\<lparr>policy_pk := Some 2, name := ''q'', enforced := True\<rparr>],
            scope_policy\<lparr>policy_pk := Some 2, name := ''q'', enforced := True\<rparr>, [])"
    by (simp add: save_def get_old_policy_def super_save_def save_jobs_def fresh_policy_pk_def
        scope_policy_def Let_def numeral_2_eq_2)
  have old: "save [scope_policy] (scope_policy\<lparr>enforced := True\<rparr>)
     = Inr ([scope_policy\<lparr>enforced := True\<rparr>], scope_policy\<lparr>enforced := True\<rparr>,
            [Generate_agent_checks_task (Some 1) True])"
    by (simp add: save_def get_old_policy_def objects_get_def super_save_def save_jobs_def
        scope_policy_def)
  from save_new_policy_enqueues_nothing[of "scope_policy\<lparr>enforced := True\<rparr>" "[scope_policy]"
      "[scope_policy\<lparr>enforced := True\<rparr>]" "scope_policy\<lparr>enforced := True\<rparr>"
      "[Generate_agent_checks_task (Some 1) True]" "Some 1" True] old
  have "\<exists>old \<in> set [scope_policy]. policy_pk old = policy_pk (scope_policy\<lparr>enforced := True\<rparr>)
         \<and> enforced old \<noteq> enforced (scope_policy\<lparr>enforced := True\<rparr>)"
    by (simp add: scope_policy_def)
  with new old show ?thesis by blast
qed

section \<open>The task cascade\<close>

lemma supported_tasks_Inr:
  assumes "supported_tasks supported tasks = Inr ts"
  shows "ts = filter (\<lambda>t. \<exists>s. task_script t = Some s \<and> supported (shell s)) tasks
     \<and> list_all (\<lambda>t. task_script t \<noteq> None) tasks"
  using assms
proof (induction tasks arbitrary: ts)
  case Nil
  then show ?case by simp
next
  case (Cons t tasks)
  from Cons.prems obtain s ts' where s: "task_script t = Some s"
    and r: "supported_tasks supported tasks = Inr ts'"
    and ts: "ts = (if supported (shell s) then t # ts' else ts')"
    by (auto split: option.splits sum.splits)
  from Cons.IH[OF r] s ts show ?case by auto
qed

lemma supported_tasks_total:
  assumes "list_all (\<lambda>t. task_script t \<noteq> None) tasks"
  shows "\<exists>ts. supported_tasks supported tasks = Inr ts"
  using assms by (induction tasks) auto

text \<open>A row of a table with distinct primary keys is the only row of its key.\<close>

lemma task_pk_eq:
  assumes "distinct (map task_pk tbl)" "t \<in> set tbl" "q \<in> set tbl"
  shows "task_pk t = task_pk q \<longleftrightarrow> t = q"
  using assms by (auto simp: distinct_map inj_on_def)

lemma retire_tasks_snoc:
  "retire_tasks (qs @ [q]) tbl =
     (if task_sync_status q = Initial then task_delete (retire_tasks qs tbl) q
      else task_save (retire_tasks qs tbl) (q\<lparr>task_sync_status := PendingDeletion\<rparr>))"
  by (induction qs arbitrary: tbl) simp_all

lemma map_filter_cong:
  assumes "\<And>x. x \<in> set xs \<Longrightarrow> G x = G' x \<and> (G x \<longrightarrow> F x = F' x)"
  shows "map F (filter G xs) = map F' (filter G' xs)"
  using assms by (induction xs) auto

lemma retired_step:
  assumes d: "distinct (map task_pk tbl)" and q: "q \<in> set tbl" and nq: "q \<notin> Q"
  shows "(if task_sync_status q = Initial then task_delete (retired Q tbl) q
      else task_save (retired Q tbl) (q\<lparr>task_sync_status := PendingDeletion\<rparr>))
     = retired (insert q Q) tbl"
proof (cases "task_sync_status q = Initial")
  case True
  have "task_delete (retired Q tbl) q = retired (insert q Q) tbl"
    unfolding task_delete_def retired_def filter_map filter_filter
    by (rule map_filter_cong) (use True task_pk_eq[OF d _ q] in auto)
  with True show ?thesis by simp
next
  case False
  have qin: "q \<in> set (retired Q tbl)"
    using q nq by (auto simp: retired_def intro!: image_eqI[where x = q])
  then have "task_pk q \<in> set (map task_pk (retired Q tbl))" by (simp del: set_map add: set_map)
  then have "task_save (retired Q tbl) (q\<lparr>task_sync_status := PendingDeletion\<rparr>)
     = map (\<lambda>t. if task_pk t = task_pk q then q\<lparr>task_sync_status := PendingDeletion\<rparr> else t)
         (retired Q tbl)"
    by (simp add: task_save_def)
  also have "\<dots> = retired (insert q Q) tbl"
    unfolding retired_def map_map
    by (rule map_filter_cong) (use False task_pk_eq[OF d _ q] in auto)
  finally show ?thesis using False by simp
qed

lemma retire_tasks_retired:
  assumes "distinct (map task_pk tbl)" "set qs \<subseteq> set tbl" "distinct qs"
  shows "retire_tasks qs tbl = retired (set qs) tbl"
  using assms(2,3)
proof (induction qs rule: rev_induct)
  case Nil
  show ?case by (simp add: retired_def)
next
  case (snoc q qs)
  then have IH: "retire_tasks qs tbl = retired (set qs) tbl" and q: "q \<in> set tbl" "q \<notin> set qs"
    by simp_all
  have "retire_tasks (qs @ [q]) tbl =
      (if task_sync_status q = Initial then task_delete (retired (set qs) tbl) q
       else task_save (retired (set qs) tbl) (q\<lparr>task_sync_status := PendingDeletion\<rparr>))"
    by (simp only: retire_tasks_snoc IH)
  also have "\<dots> = retired (insert q (set qs)) tbl"
    by (rule retired_step[OF assms(1) q])
  finally show ?case by simp
qed

lemma stale_tasks_iff:
  "t \<in> set (stale_tasks agent tasks tbl) \<longleftrightarrow>
     t \<in> set tbl \<and> task_agent t = Some (agent_pk agent)
     \<and> (\<exists>p. parent_task t = Some p \<and> p \<notin> task_pk ` set tasks
          \<and> (\<exists>m \<in> set tbl. task_agent m = Some (agent_pk agent) \<and> task_managed_by_policy m
                \<and> parent_task m = Some p))"
  by (auto simp: stale_tasks_def pk_in_def agent_autotasks_def agent_tasks_parent_pks_def
      task_pks_def image_iff)

lemma remove_policy_tasks_retired:
  assumes "distinct (map task_pk tbl)"
  shows "remove_policy_tasks agent tasks tbl = retired (set (stale_tasks agent tasks tbl)) tbl"
proof -
  have "distinct tbl" using assms by (rule distinct_map[THEN iffD1, THEN conjunct1])
  then have "distinct (stale_tasks agent tasks tbl)"
    by (simp add: stale_tasks_def agent_autotasks_def)
  moreover have "set (stale_tasks agent tasks tbl) \<subseteq> set tbl"
    by (auto simp: stale_tasks_def agent_autotasks_def)
  ultimately show ?thesis
    using retire_tasks_retired[OF assms, of "stale_tasks agent tasks tbl"]
    by (simp add: remove_policy_tasks_def stale_tasks_def)
qed


lemma cascade_policy_tasks_Inr:
  assumes "cascade_policy_tasks agent iss pols tbl = Inr (tbl', new)"
  obtains tasks where "resolved_tasks agent iss pols tbl = Inr tasks"
    and "tbl' = revive_tasks agent tasks (remove_policy_tasks agent tasks tbl)"
    and "new = filter (\<lambda>task. Some (task_pk task) \<notin> set (agent_tasks_parent_pks agent tbl)) tasks"
  using assms by (auto simp: cascade_policy_tasks_def split: sum.splits)

lemma retired_pks:
  assumes "distinct (map task_pk tbl)" "t \<in> set tbl" "t \<in> Q" "task_sync_status t = Initial"
  shows "task_pk t \<notin> task_pk ` set (retired Q tbl)"
proof
  assume "task_pk t \<in> task_pk ` set (retired Q tbl)"
  then obtain x where x: "x \<in> set tbl" "\<not> (x \<in> Q \<and> task_sync_status x = Initial)"
    "task_pk x = task_pk t"
    by (auto simp: retired_def split: if_splits)
  from task_pk_eq[OF assms(1) x(1) assms(2)] x(3) have "x = t" by simp
  with x(2) assms(3,4) show False by simp
qed

lemma revive_tasks_pks: "map task_pk (revive_tasks agent tasks tbl) = map task_pk tbl"
  by (simp add: revive_tasks_def)

lemma task_retirement:
  assumes d: "distinct (map task_pk tbl)"
    and c: "cascade_policy_tasks agent iss pols tbl = Inr (tbl', new)"
    and r: "resolved_tasks agent iss pols tbl = Inr tasks"
    and t: "t \<in> set tbl" "task_agent t = Some (agent_pk agent)" "task_managed_by_policy t"
      "parent_task t = Some p" "p \<notin> task_pk ` set tasks"
  shows "(task_sync_status t = Initial \<longrightarrow> task_pk t \<notin> task_pk ` set tbl')
     \<and> (task_sync_status t \<noteq> Initial \<longrightarrow> t\<lparr>task_sync_status := PendingDeletion\<rparr> \<in> set tbl')"
proof -
  from c r have tbl': "tbl' = revive_tasks agent tasks (remove_policy_tasks agent tasks tbl)"
    by (auto elim: cascade_policy_tasks_Inr)
  have st: "t \<in> set (stale_tasks agent tasks tbl)"
    unfolding stale_tasks_iff using t by blast
  have rem: "remove_policy_tasks agent tasks tbl = retired (set (stale_tasks agent tasks tbl)) tbl"
    by (rule remove_policy_tasks_retired[OF d])
  show ?thesis
  proof (intro conjI impI)
    assume "task_sync_status t = Initial"
    from retired_pks[OF d t(1) st this] show "task_pk t \<notin> task_pk ` set tbl'"
      unfolding tbl' rem set_map[symmetric] revive_tasks_pks .
  next
    assume "task_sync_status t \<noteq> Initial"
    with t(1) st have "t\<lparr>task_sync_status := PendingDeletion\<rparr>
        \<in> set (retired (set (stale_tasks agent tasks tbl)) tbl)"
      by (auto simp: retired_def intro!: image_eqI[where x = t])
    moreover have "\<not> pk_in (parent_task (t\<lparr>task_sync_status := PendingDeletion\<rparr>)) (task_pks tasks)"
      using t(4,5) by (auto simp: pk_in_def task_pks_def)
    ultimately show "t\<lparr>task_sync_status := PendingDeletion\<rparr> \<in> set tbl'"
      unfolding tbl' rem revive_tasks_def
      by (auto intro!: image_eqI[where x = "t\<lparr>task_sync_status := PendingDeletion\<rparr>"])
  qed
qed


section \<open>The loop of the check cascade\<close>

lemma diskspace_skip: "check_type c \<noteq> Diskspace \<Longrightarrow> diskspace_branch agent c r = r"
  by (simp add: diskspace_branch_def)
lemma ping_skip: "check_type c \<noteq> Ping \<Longrightarrow> ping_branch c r = r"
  by (simp add: ping_branch_def)
lemma cpuload_skip: "check_type c \<noteq> Cpuload \<Longrightarrow> cpuload_branch agent c r = r"
  by (simp add: cpuload_branch_def)
lemma memory_skip: "check_type c \<noteq> Memory \<Longrightarrow> memory_branch agent c r = r"
  by (simp add: memory_branch_def)
lemma winsvc_skip: "check_type c \<noteq> Winsvc \<Longrightarrow> winsvc_branch agent c r = r"
  by (simp add: winsvc_branch_def)
lemma script_skip: "check_type c \<noteq> Script \<Longrightarrow> script_branch agent iss c r = Inr r"
  by (simp add: script_branch_def)
lemma eventlog_skip: "check_type c \<noteq> Eventlog \<Longrightarrow> eventlog_branch agent c r = r"
  by (simp add: eventlog_branch_def)

lemmas skips = diskspace_skip ping_skip cpuload_skip memory_skip winsvc_skip script_skip eventlog_skip

lemma bucket_simps:
  "bucket Diskspace r = diskspace_checks r" "bucket Ping r = ping_checks r"
  "bucket Cpuload r = cpuload_checks r" "bucket Memory r = memory_checks r"
  "bucket Winsvc r = winsvc_checks r" "bucket Script r = script_checks r"
  "bucket Eventlog r = eventlog_checks r"
  by (simp_all add: bucket_def)

lemma all_types: "(\<forall>t. P t) = (P Diskspace \<and> P Ping \<and> P Cpuload \<and> P Memory \<and> P Winsvc \<and> P Script \<and> P Eventlog)"
  by (metis check_type.exhaust)

lemma diskspace_effect: "check_type c = Diskspace \<Longrightarrow> effect agent iss c r (diskspace_branch agent c r)"
  by (auto simp: effect_def all_types bucket_simps diskspace_branch_def applies_def dedup_key_def seen_def Let_def)

lemma ping_effect: "check_type c = Ping \<Longrightarrow> effect agent iss c r (ping_branch c r)"
  by (auto simp: effect_def all_types bucket_simps ping_branch_def applies_def dedup_key_def seen_def Let_def)

lemma cpuload_effect: "check_type c = Cpuload \<Longrightarrow> effect agent iss c r (cpuload_branch agent c r)"
  by (auto simp: effect_def all_types bucket_simps cpuload_branch_def applies_def dedup_key_def seen_def Let_def)

lemma memory_effect: "check_type c = Memory \<Longrightarrow> effect agent iss c r (memory_branch agent c r)"
  by (auto simp: effect_def all_types bucket_simps memory_branch_def applies_def dedup_key_def seen_def Let_def)

lemma winsvc_effect: "check_type c = Winsvc \<Longrightarrow> effect agent iss c r (winsvc_branch agent c r)"
  by (auto simp: effect_def all_types bucket_simps winsvc_branch_def applies_def dedup_key_def seen_def Let_def)

lemma script_effect: "check_type c = Script \<Longrightarrow> check_script c = Some s \<Longrightarrow>
    \<exists>r'. script_branch agent iss c r = Inr r' \<and> effect agent iss c r r'"
  by (auto simp: effect_def all_types bucket_simps script_branch_def applies_def dedup_key_def seen_def Let_def)

lemma eventlog_effect: "check_type c = Eventlog \<Longrightarrow> effect agent iss c r (eventlog_branch agent c r)"
  by (auto simp: effect_def all_types bucket_simps eventlog_branch_def applies_def dedup_key_def seen_def Let_def)

lemma loop_body_raises: "raises c \<Longrightarrow> loop_body agent iss c r = Inl AttributeError"
  by (simp add: raises_def loop_body_def skips script_branch_def)

lemma loop_body_Inr:
  assumes "\<not> raises c"
  shows "\<exists>r'. loop_body agent iss c r = Inr r' \<and> effect agent iss c r r'"
proof (cases "check_type c")
  case Diskspace
  then show ?thesis using diskspace_effect[OF Diskspace] by (simp add: loop_body_def skips)
next
  case Ping
  then show ?thesis using ping_effect[OF Ping] by (simp add: loop_body_def skips)
next
  case Cpuload
  then show ?thesis using cpuload_effect[OF Cpuload] by (simp add: loop_body_def skips)
next
  case Memory
  then show ?thesis using memory_effect[OF Memory] by (simp add: loop_body_def skips)
next
  case Winsvc
  then show ?thesis using winsvc_effect[OF Winsvc] by (simp add: loop_body_def skips)
next
  case Script
  with assms obtain s where s: "check_script c = Some s" by (auto simp: raises_def)
  from script_effect[OF Script s, of agent iss r] Script show ?thesis
    by (auto simp: loop_body_def skips)
next
  case Eventlog
  then show ?thesis using eventlog_effect[OF Eventlog] by (simp add: loop_body_def skips)
qed

lemma keys_of_simps:
  "keys_of agent iss [] = {}"
  "keys_of agent iss (x # xs) =
     (if applies agent iss x then insert (dedup_key x) (keys_of agent iss xs) else keys_of agent iss xs)"
  by (simp_all add: keys_of_def)

lemma check_loop_raises:
  "check_loop agent iss cs r = Inr r' \<Longrightarrow> c \<in> set cs \<Longrightarrow> \<not> raises c"
proof (induction cs arbitrary: r)
  case Nil
  then show ?case by simp
next
  case (Cons x xs)
  from Cons.prems(1) obtain r1 where r1: "loop_body agent iss x r = Inr r1"
    and rest: "check_loop agent iss xs r1 = Inr r'"
    by (auto split: sum.splits)
  from r1 have "\<not> raises x" using loop_body_raises[of x agent iss r] by auto
  with Cons.IH[OF rest] Cons.prems(2) show ?case by auto
qed

lemma check_loop_Inr:
  assumes "list_all (\<lambda>c. \<not> raises c) cs"
  shows "\<exists>r'. check_loop agent iss cs r = Inr r'
     \<and> seen r' = seen r \<union> keys_of agent iss cs
     \<and> (\<forall>t. bucket t r' = bucket t r @ filter (\<lambda>c. check_type c = t) (accepted agent iss (seen r) cs))
     \<and> table r' = fold mark_overriden (overridden agent iss (seen r) cs) (table r)"
  using assms
proof (induction cs arbitrary: r)
  case Nil
  then show ?case by (simp add: keys_of_simps)
next
  case (Cons x xs)
  from Cons.prems have nx: "\<not> raises x" and nxs: "list_all (\<lambda>c. \<not> raises c) xs" by simp_all
  from loop_body_Inr[OF nx, of agent iss r] obtain r1 where
    r1: "loop_body agent iss x r = Inr r1" and eff: "effect agent iss x r r1" by blast
  from Cons.IH[OF nxs, of r1] obtain r' where
    loop: "check_loop agent iss xs r1 = Inr r'"
    and s: "seen r' = seen r1 \<union> keys_of agent iss xs"
    and b: "\<And>t. bucket t r' = bucket t r1 @ filter (\<lambda>c. check_type c = t) (accepted agent iss (seen r1) xs)"
    and t: "table r' = fold mark_overriden (overridden agent iss (seen r1) xs) (table r1)"
    by blast
  from eff have s1: "seen r1 = (if applies agent iss x then insert (dedup_key x) (seen r) else seen r)"
    and b1: "\<And>t. bucket t r1 = bucket t r @
            (if applies agent iss x \<and> dedup_key x \<notin> seen r \<and> check_agent x = None
                \<and> check_type x = t then [x] else [])"
    and t1: "table r1 = (if applies agent iss x \<and> dedup_key x \<in> seen r \<and> check_agent x \<noteq> None
                   then mark_overriden x (table r) else table r)"
    by (simp_all add: effect_def)
  have "check_loop agent iss (x # xs) r = Inr r'" using r1 loop by simp
  moreover have "seen r' = seen r \<union> keys_of agent iss (x # xs)"
    using s s1 by (auto simp: keys_of_simps)
  moreover have "\<And>t. bucket t r' = bucket t r @ filter (\<lambda>c. check_type c = t) (accepted agent iss (seen r) (x # xs))"
    using b b1 s1 by (auto simp: insert_absorb)
  moreover have "table r' = fold mark_overriden (overridden agent iss (seen r) (x # xs)) (table r)"
    using t t1 s1 by (auto simp: insert_absorb)
  ultimately show ?case by blast
qed

lemma accepted_sub:
  "c \<in> set (accepted agent iss S cs) \<Longrightarrow>
     c \<in> set cs \<and> applies agent iss c \<and> check_agent c = None \<and> dedup_key c \<notin> S"
  by (induction cs arbitrary: S) (auto split: if_splits)

lemma overridden_sub:
  "c \<in> set (overridden agent iss S cs) \<Longrightarrow>
     c \<in> set cs \<and> applies agent iss c \<and> check_agent c \<noteq> None"
  by (induction cs arbitrary: S) (auto split: if_splits)

lemma accepted_distinct: "distinct (map dedup_key (accepted agent iss S cs))"
  by (induction cs arbitrary: S) (auto dest: accepted_sub)

lemma accepted_append:
  "accepted agent iss S (xs @ ys) =
     accepted agent iss S xs @ accepted agent iss (S \<union> keys_of agent iss xs) ys"
proof (induction xs arbitrary: S)
  case Nil
  then show ?case by (simp add: keys_of_simps)
next
  case (Cons x xs)
  show ?case
  proof (cases "applies agent iss x")
    case False
    then show ?thesis using Cons.IH by (simp add: keys_of_simps)
  next
    case True
    show ?thesis
    proof (cases "dedup_key x \<in> S")
      case True
      then have "S \<union> insert (dedup_key x) (keys_of agent iss xs) = S \<union> keys_of agent iss xs"
        by auto
      with True \<open>applies agent iss x\<close> Cons.IH show ?thesis by (simp add: keys_of_simps)
    next
      case False
      have "S \<union> insert (dedup_key x) (keys_of agent iss xs) = insert (dedup_key x) S \<union> keys_of agent iss xs"
        by auto
      with False \<open>applies agent iss x\<close> Cons.IH show ?thesis by (simp add: keys_of_simps)
    qed
  qed
qed

lemma overridden_append:
  "overridden agent iss S (xs @ ys) =
     overridden agent iss S xs @ overridden agent iss (S \<union> keys_of agent iss xs) ys"
proof (induction xs arbitrary: S)
  case Nil
  then show ?case by (simp add: keys_of_simps)
next
  case (Cons x xs)
  show ?case
  proof (cases "applies agent iss x")
    case False
    then show ?thesis using Cons.IH by (simp add: keys_of_simps)
  next
    case True
    show ?thesis
    proof (cases "dedup_key x \<in> S")
      case True
      then have "S \<union> insert (dedup_key x) (keys_of agent iss xs) = S \<union> keys_of agent iss xs"
        by auto
      with True \<open>applies agent iss x\<close> Cons.IH show ?thesis by (simp add: keys_of_simps)
    next
      case False
      have "S \<union> insert (dedup_key x) (keys_of agent iss xs) = insert (dedup_key x) S \<union> keys_of agent iss xs"
        by auto
      with False \<open>applies agent iss x\<close> Cons.IH show ?thesis by (simp add: keys_of_simps)
    qed
  qed
qed

lemma overridden_seen:
  "d \<in> set cs \<Longrightarrow> applies agent iss d \<Longrightarrow> check_agent d \<noteq> None \<Longrightarrow> dedup_key d \<in> S \<Longrightarrow>
     d \<in> set (overridden agent iss S cs)"
  by (induction cs arbitrary: S) auto

lemma accepted_first:
  assumes "applies agent iss c" "dedup_key c \<notin> S"
  shows "filter (\<lambda>d. dedup_key d = dedup_key c) (accepted agent iss S (c # ys))
     = (if check_agent c = None then [c] else [])"
proof -
  have "filter (\<lambda>d. dedup_key d = dedup_key c) (accepted agent iss (insert (dedup_key c) S) ys) = []"
    by (auto simp: filter_empty_conv dest: accepted_sub)
  then show ?thesis using assms by simp
qed

lemma check_pk_eq:
  assumes "distinct (map check_pk tbl)" "c \<in> set tbl" "q \<in> set tbl"
  shows "check_pk c = check_pk q \<longleftrightarrow> c = q"
  using assms by (auto simp: distinct_map inj_on_def)

lemma marked_pks: "map check_pk (marked M tbl) = map check_pk tbl"
  by (simp add: marked_def)

lemma mark_overriden_marked:
  assumes d: "distinct (map check_pk tbl)" and m: "m \<in> set tbl"
  shows "mark_overriden m (marked M tbl) = marked (insert m M) tbl"
proof -
  have "check_pk m \<in> set (map check_pk (marked M tbl))"
    using m unfolding marked_pks by simp
  then have "mark_overriden m (marked M tbl) =
      map (\<lambda>c. if check_pk c = check_pk m then m\<lparr>overriden_by_policy := True\<rparr> else c) (marked M tbl)"
    by (simp add: mark_overriden_def check_save_def)
  also have "\<dots> = marked (insert m M) tbl"
    unfolding marked_def map_map
    by (rule map_cong[OF refl]) (use check_pk_eq[OF d _ m] in auto)
  finally show ?thesis .
qed

lemma fold_mark_overriden:
  assumes "distinct (map check_pk tbl)" "set ms \<subseteq> set tbl"
  shows "fold mark_overriden ms tbl = marked (set ms) tbl"
  using assms(2)
proof (induction ms rule: rev_induct)
  case Nil
  show ?case by (simp add: marked_def)
next
  case (snoc m ms)
  then have IH: "fold mark_overriden ms tbl = marked (set ms) tbl" and m: "m \<in> set tbl"
    by simp_all
  show ?case using mark_overriden_marked[OF assms(1) m, of "set ms"] IH by simp
qed

lemma candidates_subset: "set (candidates agent pols tbl) \<subseteq> set tbl"
  by (auto simp: candidates_def enforced_checks_def policy_checks_def agent_checks_def
      agentchecks_def checks_of_def policychecks_def split: option.splits if_splits)

lemma seen_initial: "seen (initial_resolution tbl) = {}"
  by (simp add: seen_def initial_resolution_def)

lemma bucket_initial: "bucket t (initial_resolution tbl) = []"
  by (cases t) (simp_all add: bucket_def initial_resolution_def)

lemma table_initial: "table (initial_resolution tbl) = tbl"
  by (simp add: initial_resolution_def)

lemma final_list_buckets: "final_list r = concat (map (\<lambda>t. bucket t r) type_order)"
  by (simp add: final_list_def type_order_def bucket_simps)

lemma resolve_checks_loop:
  assumes r: "resolve_checks agent iss pols tbl = Inr r"
  shows "list_all (\<lambda>c. \<not> raises c) (candidates agent pols tbl)"
    and "final_list r = by_type (accepted agent iss {} (candidates agent pols tbl))"
    and "table r = fold mark_overriden (overridden agent iss {} (candidates agent pols tbl)) tbl"
proof -
  let ?cs = "candidates agent pols tbl"
  from r have loop: "check_loop agent iss ?cs (initial_resolution tbl) = Inr r"
    by (simp add: resolve_checks_def)
  show nr: "list_all (\<lambda>c. \<not> raises c) ?cs"
    using check_loop_raises[OF loop] by (auto simp: list_all_iff)
  from check_loop_Inr[OF nr, of agent iss "initial_resolution tbl"] loop
  have b: "\<And>t. bucket t r = filter (\<lambda>c. check_type c = t) (accepted agent iss {} ?cs)"
    and t: "table r = fold mark_overriden (overridden agent iss {} ?cs) tbl"
    by (auto simp: seen_initial bucket_initial table_initial)
  show "final_list r = by_type (accepted agent iss {} ?cs)"
    by (simp add: final_list_buckets by_type_def b)
  show "table r = fold mark_overriden (overridden agent iss {} ?cs) tbl" by (rule t)
qed

lemma resolve_checks_table:
  assumes d: "distinct (map check_pk tbl)"
    and r: "resolve_checks agent iss pols tbl = Inr r"
  shows "table r = marked (set (overridden agent iss {} (candidates agent pols tbl))) tbl"
proof -
  have "set (overridden agent iss {} (candidates agent pols tbl)) \<subseteq> set tbl"
    using overridden_sub candidates_subset by blast
  from fold_mark_overriden[OF d this] resolve_checks_loop(3)[OF r] show ?thesis by simp
qed

lemma resolve_checks_total:
  assumes "list_all (\<lambda>c. \<not> raises c) (candidates agent pols tbl)"
  shows "\<exists>r. resolve_checks agent iss pols tbl = Inr r"
  using check_loop_Inr[OF assms, of agent iss "initial_resolution tbl"]
  by (auto simp: resolve_checks_def)

lemma set_by_type: "set (by_type cs) = set cs"
proof -
  have "\<And>c. check_type c \<in> set type_order"
    by (case_tac "check_type c") (simp_all add: type_order_def)
  then show ?thesis by (auto simp: by_type_def)
qed

lemma key_type: "dedup_key x = dedup_key y \<Longrightarrow> check_type x = check_type y"
  by (cases "check_type x"; cases "check_type y") (simp_all add: dedup_key_def)

lemma filter_key_by_type:
  "filter (\<lambda>x. dedup_key x = dedup_key c) (by_type cs) = filter (\<lambda>x. dedup_key x = dedup_key c) cs"
proof -
  have a: "filter (\<lambda>x. check_type x = t \<and> dedup_key x = dedup_key c) cs
      = (if t = check_type c then filter (\<lambda>x. dedup_key x = dedup_key c) cs else [])" for t
    by (auto simp: filter_empty_conv dest: key_type intro: filter_cong)
  show ?thesis
    by (cases "check_type c") (simp_all add: by_type_def type_order_def a)
qed

lemma distinct_by_type:
  assumes "distinct (map dedup_key cs)"
  shows "distinct (map dedup_key (by_type cs))"
proof -
  have f: "distinct (map dedup_key (filter P cs))" for P
    using assms by (rule distinct_map_filter)
  have "dedup_key x \<noteq> dedup_key y" if "check_type x \<noteq> check_type y" for x y
    using that key_type by blast
  then show ?thesis
    by (auto simp: by_type_def type_order_def f)
qed

section \<open>The claims on the check cascade\<close>

lemmas example_defs = windows_agent_def shells_def template_def direct_def managed_def stack_def
  scope_policy_def

lemmas cascade_checks_defs = cascade_policy_checks_def resolve_checks_def candidates_def
  enforced_checks_def policy_checks_def agent_checks_def agentchecks_def checks_of_def
  policychecks_def initial_resolution_def loop_body_def diskspace_branch_def ping_branch_def
  cpuload_branch_def memory_branch_def winsvc_branch_def script_branch_def eventlog_branch_def
  final_list_def remove_policy_checks_def agent_checks_parent_pks_def check_pks_def pk_in_def
  mark_overriden_def check_save_def Let_def

lemmas cascade_tasks_defs = cascade_policy_tasks_def resolved_tasks_def policy_tasks_def
  add_policy_tasks_def autotasks_def agent_autotasks_def remove_policy_tasks_def
  revive_tasks_def agent_tasks_parent_pks_def task_pks_def pk_in_def task_delete_def
  task_save_def

lemmas more_example_defs = linux_agent_def script_template_def task_template_def
  managed_task_def

lemma cascade_policy_checks_Inr:
  assumes "cascade_policy_checks agent iss pols tbl = Inr (tbl', new)"
  obtains r where "resolve_checks agent iss pols tbl = Inr r"
    and "tbl' = remove_policy_checks agent (agent_checks_parent_pks agent tbl) (final_list r) (table r)"
    and "new = filter (\<lambda>check. Some (check_pk check) \<notin> set (agent_checks_parent_pks agent tbl))
                 (final_list r)"
  using assms by (auto simp: cascade_policy_checks_def split: sum.splits)

lemma cascade_policy_checks_total:
  assumes "list_all (\<lambda>c. \<not> raises c) (candidates agent pols tbl)"
  shows "\<exists>r tbl' new. resolve_checks agent iss pols tbl = Inr r
     \<and> cascade_policy_checks agent iss pols tbl = Inr (tbl', new)"
  using resolve_checks_total[OF assms, of iss] by (auto simp: cascade_policy_checks_def)

lemma final_list_accepted:
  assumes "resolve_checks agent iss pols tbl = Inr r" and "c \<in> set (final_list r)"
  shows "c \<in> set (candidates agent pols tbl) \<and> applies agent iss c \<and> check_agent c = None"
  using assms accepted_sub[of c agent iss "{}" "candidates agent pols tbl"]
  by (simp add: resolve_checks_loop(2) set_by_type)

lemma final_list_distinct:
  assumes "resolve_checks agent iss pols tbl = Inr r"
  shows "distinct (map dedup_key (final_list r))"
  using assms by (simp add: resolve_checks_loop(2) distinct_by_type accepted_distinct)

lemma by_type_idem: "by_type (by_type cs) = by_type cs"
  by (simp add: by_type_def type_order_def filter_empty_conv) 

lemma by_type_filter: "by_type (filter P cs) = filter P (by_type cs)"
  by (simp add: by_type_def type_order_def conj_commute)

text \<open>The accepted checks of a key are the first candidate of that key, if it is a template.\<close>

lemma accepted_first_wins:
  assumes cs: "cs = xs @ c # ys" and ap: "applies agent iss c"
    and first: "\<And>x. x \<in> set xs \<Longrightarrow> applies agent iss x \<Longrightarrow> dedup_key x \<noteq> dedup_key c"
  shows "filter (\<lambda>x. dedup_key x = dedup_key c) (accepted agent iss {} cs)
     = (if check_agent c = None then [c] else [])"
proof -
  have k: "dedup_key c \<notin> keys_of agent iss xs"
  proof
    assume "dedup_key c \<in> keys_of agent iss xs"
    then obtain x where "x \<in> set xs" "applies agent iss x" "dedup_key x = dedup_key c"
      by (auto simp: keys_of_def)
    with first show False by blast
  qed
  have "filter (\<lambda>x. dedup_key x = dedup_key c) (accepted agent iss {} xs) = []"
    using first by (auto simp: filter_empty_conv dest: accepted_sub)
  with accepted_first[OF ap, of "keys_of agent iss xs" ys] k show ?thesis
    unfolding cs accepted_append by simp
qed

lemma overridden_later:
  assumes cs: "cs = xs @ c # ys" and ap: "applies agent iss c"
    and d: "d \<in> set ys" "applies agent iss d" "check_agent d \<noteq> None" "dedup_key d = dedup_key c"
  shows "d \<in> set (overridden agent iss {} cs)"
proof -
  have "d \<in> set (overridden agent iss (keys_of agent iss xs) (c # ys))"
  proof (cases "dedup_key c \<in> keys_of agent iss xs")
    case True
    with d have "d \<in> set (overridden agent iss (keys_of agent iss xs) ys)"
      by (intro overridden_seen) simp_all
    with True ap show ?thesis by simp
  next
    case False
    from d have "d \<in> set (overridden agent iss (insert (dedup_key c) (keys_of agent iss xs)) ys)"
      by (intro overridden_seen) simp_all
    with False ap show ?thesis by simp
  qed
  then show ?thesis unfolding cs overridden_append by simp
qed

lemma candidates_explicit:
  "candidates agent pols tbl =
     concat (map (\<lambda>pol. case pol of None \<Rightarrow> []
                  | Some p \<Rightarrow> if active p \<and> enforced p
                      then filter (\<lambda>c. policy_pk p \<noteq> None \<and> check_policy c = policy_pk p) tbl
                      else [])
        [agent_policy pols, site_policy pols, client_policy pols, default_policy pols])
     @ filter (\<lambda>c. check_agent c = Some (agent_pk agent) \<and> \<not> managed_by_policy c) tbl
     @ concat (map (\<lambda>pol. case pol of None \<Rightarrow> []
                  | Some p \<Rightarrow> if active p \<and> \<not> enforced p
                      then filter (\<lambda>c. policy_pk p \<noteq> None \<and> check_policy c = policy_pk p) tbl
                      else [])
        [agent_policy pols, site_policy pols, client_policy pols, default_policy pols])"
proof -
  have e: "checks_of True tbl pol = (case pol of None \<Rightarrow> []
                  | Some p \<Rightarrow> if active p \<and> enforced p
                      then filter (\<lambda>c. policy_pk p \<noteq> None \<and> check_policy c = policy_pk p) tbl
                      else [])" for pol
    by (cases pol) (simp_all add: checks_of_def policychecks_def)
  have p: "checks_of False tbl pol = (case pol of None \<Rightarrow> []
                  | Some p \<Rightarrow> if active p \<and> \<not> enforced p
                      then filter (\<lambda>c. policy_pk p \<noteq> None \<and> check_policy c = policy_pk p) tbl
                      else [])" for pol
    by (cases pol) (simp_all add: checks_of_def policychecks_def)
  show ?thesis
    unfolding candidates_def enforced_checks_def policy_checks_def e p
    by (simp add: agent_checks_def agentchecks_def)
qed

lemma keys_of_iff:
  "k \<notin> keys_of agent iss xs \<longleftrightarrow> (\<forall>y \<in> set xs. applies agent iss y \<longrightarrow> dedup_key y \<noteq> k)"
  by (auto simp: keys_of_def)

lemma accepted_iff:
  "x \<in> set (accepted agent iss S cs) \<longleftrightarrow>
     (\<exists>xs ys. cs = xs @ x # ys \<and> applies agent iss x \<and> check_agent x = None
        \<and> dedup_key x \<notin> S \<union> keys_of agent iss xs)"
proof
  assume "x \<in> set (accepted agent iss S cs)"
  then show "\<exists>xs ys. cs = xs @ x # ys \<and> applies agent iss x \<and> check_agent x = None
        \<and> dedup_key x \<notin> S \<union> keys_of agent iss xs"
  proof (induction cs arbitrary: S)
    case Nil
    then show ?case by simp
  next
    case (Cons c cs)
    show ?case
    proof (cases "applies agent iss c \<and> dedup_key c \<notin> S \<and> check_agent c = None \<and> x = c")
      case True
      then have "c # cs = [] @ x # cs \<and> applies agent iss x \<and> check_agent x = None
          \<and> dedup_key x \<notin> S \<union> keys_of agent iss []"
        by (simp add: keys_of_simps)
      then show ?thesis by blast
    next
      case False
      let ?S' = "if applies agent iss c then insert (dedup_key c) S else S"
      from Cons.prems False have "x \<in> set (accepted agent iss ?S' cs)"
        by (auto split: if_splits simp: insert_absorb)
      from Cons.IH[OF this] obtain xs ys where xs: "cs = xs @ x # ys" "applies agent iss x"
        "check_agent x = None" "dedup_key x \<notin> ?S' \<union> keys_of agent iss xs" by blast
      then have "c # cs = (c # xs) @ x # ys \<and> applies agent iss x \<and> check_agent x = None
          \<and> dedup_key x \<notin> S \<union> keys_of agent iss (c # xs)"
        by (auto simp: keys_of_simps split: if_splits)
      then show ?thesis by blast
    qed
  qed
next
  assume "\<exists>xs ys. cs = xs @ x # ys \<and> applies agent iss x \<and> check_agent x = None
        \<and> dedup_key x \<notin> S \<union> keys_of agent iss xs"
  then obtain xs ys where "cs = xs @ x # ys" "applies agent iss x" "check_agent x = None"
    "dedup_key x \<notin> S \<union> keys_of agent iss xs" by blast
  then show "x \<in> set (accepted agent iss S cs)"
    by (simp add: accepted_append)
qed

lemma overridden_iff:
  "x \<in> set (overridden agent iss S cs) \<longleftrightarrow>
     (\<exists>xs ys. cs = xs @ x # ys \<and> applies agent iss x \<and> check_agent x \<noteq> None
        \<and> dedup_key x \<in> S \<union> keys_of agent iss xs)"
proof
  assume "x \<in> set (overridden agent iss S cs)"
  then show "\<exists>xs ys. cs = xs @ x # ys \<and> applies agent iss x \<and> check_agent x \<noteq> None
        \<and> dedup_key x \<in> S \<union> keys_of agent iss xs"
  proof (induction cs arbitrary: S)
    case Nil
    then show ?case by simp
  next
    case (Cons c cs)
    show ?case
    proof (cases "applies agent iss c \<and> dedup_key c \<in> S \<and> check_agent c \<noteq> None \<and> x = c")
      case True
      then have "c # cs = [] @ x # cs \<and> applies agent iss x \<and> check_agent x \<noteq> None
          \<and> dedup_key x \<in> S \<union> keys_of agent iss []"
        by (simp add: keys_of_simps)
      then show ?thesis by blast
    next
      case False
      let ?S' = "if applies agent iss c then insert (dedup_key c) S else S"
      from Cons.prems False have "x \<in> set (overridden agent iss ?S' cs)"
        by (auto split: if_splits simp: insert_absorb)
      from Cons.IH[OF this] obtain xs ys where xs: "cs = xs @ x # ys" "applies agent iss x"
        "check_agent x \<noteq> None" "dedup_key x \<in> ?S' \<union> keys_of agent iss xs" by blast
      then have "c # cs = (c # xs) @ x # ys \<and> applies agent iss x \<and> check_agent x \<noteq> None
          \<and> dedup_key x \<in> S \<union> keys_of agent iss (c # xs)"
        by (auto simp: keys_of_simps split: if_splits)
      then show ?thesis by blast
    qed
  qed
next
  assume "\<exists>xs ys. cs = xs @ x # ys \<and> applies agent iss x \<and> check_agent x \<noteq> None
        \<and> dedup_key x \<in> S \<union> keys_of agent iss xs"
  then obtain xs ys where "cs = xs @ x # ys" "applies agent iss x" "check_agent x \<noteq> None"
    "dedup_key x \<in> S \<union> keys_of agent iss xs" by blast
  then show "x \<in> set (overridden agent iss S cs)"
    by (auto simp: overridden_append)
qed

lemma keys_of_mem:
  "k \<in> keys_of agent iss xs \<longleftrightarrow> (\<exists>y \<in> set xs. applies agent iss y \<and> dedup_key y = k)"
  by (auto simp: keys_of_def)

lemma table_marks:
  assumes d: "distinct (map check_pk tbl)"
    and r: "resolve_checks agent iss pols tbl = Inr r"
  shows "table r =
     map (\<lambda>x. if (\<exists>xs ys. candidates agent pols tbl = xs @ x # ys \<and> applies agent iss x
                    \<and> check_agent x \<noteq> None
                    \<and> (\<exists>y \<in> set xs. applies agent iss y \<and> dedup_key y = dedup_key x))
              then x\<lparr>overriden_by_policy := True\<rparr> else x) tbl"
proof -
  have "x \<in> set (overridden agent iss {} (candidates agent pols tbl)) \<longleftrightarrow>
      (\<exists>xs ys. candidates agent pols tbl = xs @ x # ys \<and> applies agent iss x
                    \<and> check_agent x \<noteq> None
                    \<and> (\<exists>y \<in> set xs. applies agent iss y \<and> dedup_key y = dedup_key x))" for x
    unfolding overridden_iff by (simp add: keys_of_mem)
  then show ?thesis
    unfolding resolve_checks_table[OF d r] marked_def by simp
qed

lemma final_list_iff:
  assumes r: "resolve_checks agent iss pols tbl = Inr r"
  shows "x \<in> set (final_list r) \<longleftrightarrow>
     (\<exists>xs ys. candidates agent pols tbl = xs @ x # ys \<and> applies agent iss x
        \<and> check_agent x = None
        \<and> (\<forall>y \<in> set xs. applies agent iss y \<longrightarrow> dedup_key y \<noteq> dedup_key x))"
  unfolding resolve_checks_loop(2)[OF r] set_by_type accepted_iff
  by (simp add: keys_of_iff)

lemma first_wins:
  assumes r: "resolve_checks agent iss pols tbl = Inr r"
    and cs: "candidates agent pols tbl = xs @ c # ys" and ap: "applies agent iss c"
    and first: "\<forall>y \<in> set xs. applies agent iss y \<longrightarrow> dedup_key y \<noteq> dedup_key c"
  shows "filter (\<lambda>x. dedup_key x = dedup_key c) (final_list r)
           = (if check_agent c = None then [c] else [])"
  unfolding resolve_checks_loop(2)[OF r] filter_key_by_type
  using first by (intro accepted_first_wins[OF cs ap]) simp

lemma winner_unmarked:
  assumes d: "distinct (map check_pk tbl)"
    and r: "resolve_checks agent iss pols tbl = Inr r"
    and cs: "candidates agent pols tbl = xs @ c # ys" and ap: "applies agent iss c"
    and first: "\<forall>y \<in> set xs. applies agent iss y \<longrightarrow> dedup_key y \<noteq> dedup_key c"
    and once: "c \<notin> set ys"
  shows "c \<in> set (table r)"
proof -
  have cx: "c \<notin> set xs" using first ap by auto
  have "c \<in> set (candidates agent pols tbl)" using cs by simp
  then have ct: "c \<in> set tbl" using candidates_subset by blast
  have "\<not> (\<exists>xs' ys'. candidates agent pols tbl = xs' @ c # ys' \<and> applies agent iss c
                    \<and> check_agent c \<noteq> None
                    \<and> (\<exists>y \<in> set xs'. applies agent iss y \<and> dedup_key y = dedup_key c))"
  proof
    assume "\<exists>xs' ys'. candidates agent pols tbl = xs' @ c # ys' \<and> applies agent iss c
                    \<and> check_agent c \<noteq> None
                    \<and> (\<exists>y \<in> set xs'. applies agent iss y \<and> dedup_key y = dedup_key c)"
    then obtain xs' ys' y where e: "candidates agent pols tbl = xs' @ c # ys'"
      and y: "y \<in> set xs'" "applies agent iss y" "dedup_key y = dedup_key c" by blast
    from e cs have "xs @ c # ys = xs' @ c # ys'" by simp
    with cx once have "xs = xs'" by (simp add: append_Cons_eq_iff)
    with y first show False by blast
  qed
  then show ?thesis
    unfolding table_marks[OF d r] using ct by (auto simp: image_iff intro!: bexI[where x = c])
qed

lemma later_marked:
  assumes d: "distinct (map check_pk tbl)"
    and r: "resolve_checks agent iss pols tbl = Inr r"
    and cs: "candidates agent pols tbl = xs @ c # ys" and ap: "applies agent iss c"
    and dy: "x \<in> set ys" "applies agent iss x" "dedup_key x = dedup_key c"
      "check_agent x \<noteq> None"
  shows "x\<lparr>overriden_by_policy := True\<rparr> \<in> set (table r)"
proof -
  from overridden_later[OF cs ap dy(1,2,4,3)]
  have m: "x \<in> set (overridden agent iss {} (candidates agent pols tbl))" .
  have "x \<in> set (candidates agent pols tbl)" using dy cs by simp
  then have "x \<in> set tbl" using candidates_subset by blast
  with m show ?thesis
    unfolding resolve_checks_table[OF d r] marked_def
    by (auto intro!: image_eqI[where x = x])
qed

lemma unadmitted_unmarked:
  assumes d: "distinct (map check_pk tbl)"
    and r: "resolve_checks agent iss pols tbl = Inr r"
    and x: "x \<in> set tbl" "\<not> applies agent iss x"
  shows "x \<in> set (table r)"
  unfolding table_marks[OF d r] using x by (auto simp: image_iff intro!: bexI[where x = x])

lemma unmanaged_kept:
  assumes c: "cascade_policy_checks agent iss pols tbl = Inr (tbl', new)"
    and r: "resolve_checks agent iss pols tbl = Inr r"
    and x: "x \<in> set (table r)" "\<not> managed_by_policy x"
  shows "x \<in> set tbl'"
proof -
  from c r
  have "tbl' = remove_policy_checks agent (agent_checks_parent_pks agent tbl) (final_list r) (table r)"
    by (auto elim: cascade_policy_checks_Inr)
  with x show ?thesis by (simp add: remove_policy_checks_def)
qed

text \<open>
  C4. Precedence and override marking, as the source performs them. The loop runs over
  the checks of the active enforced policies (of the agent, its site, its client, the
  default, in this order), then the agent's own unmanaged checks, then the checks of the
  active policies that are not enforced. Only candidates that the platform admits take
  part: diskspace, cpuload, memory, winsvc and eventlog checks on a windows agent, script
  checks with a supported shell, ping checks always. With \<open>c\<close> the first admitted
  candidate of its key, the accepted checks of that key are \<open>c\<close> alone when it is a
  template and none when it is the agent's own; \<open>c\<close> itself is stored unchanged; every
  later admitted candidate of the same key that belongs to an agent is stored with
  \<open>overriden_by_policy\<close> set. The loop marks no other row, a candidate that the
  platform does not admit in particular, and the unmanaged rows are still in the table
  when the call returns.
\<close>

theorem cascade_policy_checks_precedence:
  assumes d: "distinct (map check_pk tbl)"
    and c: "cascade_policy_checks agent iss pols tbl = Inr (tbl', new)"
    and r: "resolve_checks agent iss pols tbl = Inr r"
  shows "candidates agent pols tbl =
       concat (map (\<lambda>pol. case pol of None \<Rightarrow> []
                  | Some p \<Rightarrow> if active p \<and> enforced p
                      then filter (\<lambda>c. policy_pk p \<noteq> None \<and> check_policy c = policy_pk p) tbl
                      else [])
          [agent_policy pols, site_policy pols, client_policy pols, default_policy pols])
       @ filter (\<lambda>c. check_agent c = Some (agent_pk agent) \<and> \<not> managed_by_policy c) tbl
       @ concat (map (\<lambda>pol. case pol of None \<Rightarrow> []
                  | Some p \<Rightarrow> if active p \<and> \<not> enforced p
                      then filter (\<lambda>c. policy_pk p \<noteq> None \<and> check_policy c = policy_pk p) tbl
                      else [])
          [agent_policy pols, site_policy pols, client_policy pols, default_policy pols])
     \<and> (\<forall>x \<in> set (final_list r).
           x \<in> set (candidates agent pols tbl) \<and> applies agent iss x \<and> check_agent x = None)
     \<and> (\<forall>xs c ys.
           candidates agent pols tbl = xs @ c # ys \<and> applies agent iss c
           \<and> (\<forall>y \<in> set xs. applies agent iss y \<longrightarrow> dedup_key y \<noteq> dedup_key c)
           \<longrightarrow> filter (\<lambda>x. dedup_key x = dedup_key c) (final_list r)
                 = (if check_agent c = None then [c] else [])
               \<and> (c \<notin> set ys \<longrightarrow> c \<in> set (table r))
               \<and> (\<forall>x \<in> set ys. applies agent iss x \<and> dedup_key x = dedup_key c
                      \<and> check_agent x \<noteq> None
                     \<longrightarrow> x\<lparr>overriden_by_policy := True\<rparr> \<in> set (table r)))
     \<and> (\<forall>x \<in> set tbl. \<not> applies agent iss x \<longrightarrow> x \<in> set (table r))
     \<and> table r =
         map (\<lambda>x. if (\<exists>xs ys. candidates agent pols tbl = xs @ x # ys \<and> applies agent iss x
                        \<and> check_agent x \<noteq> None
                        \<and> (\<exists>y \<in> set xs. applies agent iss y \<and> dedup_key y = dedup_key x))
                  then x\<lparr>overriden_by_policy := True\<rparr> else x) tbl
     \<and> (\<forall>x \<in> set (table r). \<not> managed_by_policy x \<longrightarrow> x \<in> set tbl')"
proof (intro conjI)
  show "candidates agent pols tbl =
       concat (map (\<lambda>pol. case pol of None \<Rightarrow> []
                  | Some p \<Rightarrow> if active p \<and> enforced p
                      then filter (\<lambda>c. policy_pk p \<noteq> None \<and> check_policy c = policy_pk p) tbl
                      else [])
          [agent_policy pols, site_policy pols, client_policy pols, default_policy pols])
       @ filter (\<lambda>c. check_agent c = Some (agent_pk agent) \<and> \<not> managed_by_policy c) tbl
       @ concat (map (\<lambda>pol. case pol of None \<Rightarrow> []
                  | Some p \<Rightarrow> if active p \<and> \<not> enforced p
                      then filter (\<lambda>c. policy_pk p \<noteq> None \<and> check_policy c = policy_pk p) tbl
                      else [])
          [agent_policy pols, site_policy pols, client_policy pols, default_policy pols])"
    by (rule candidates_explicit)
  show "\<forall>x \<in> set (final_list r).
           x \<in> set (candidates agent pols tbl) \<and> applies agent iss x \<and> check_agent x = None"
    using final_list_accepted[OF r] by blast
  show "\<forall>xs c ys.
           candidates agent pols tbl = xs @ c # ys \<and> applies agent iss c
           \<and> (\<forall>y \<in> set xs. applies agent iss y \<longrightarrow> dedup_key y \<noteq> dedup_key c)
           \<longrightarrow> filter (\<lambda>x. dedup_key x = dedup_key c) (final_list r)
                 = (if check_agent c = None then [c] else [])
               \<and> (c \<notin> set ys \<longrightarrow> c \<in> set (table r))
               \<and> (\<forall>x \<in> set ys. applies agent iss x \<and> dedup_key x = dedup_key c
                      \<and> check_agent x \<noteq> None
                     \<longrightarrow> x\<lparr>overriden_by_policy := True\<rparr> \<in> set (table r))"
  proof (intro allI impI, elim conjE, intro conjI impI ballI)
    fix xs c ys
    assume cs: "candidates agent pols tbl = xs @ c # ys" and ap: "applies agent iss c"
      and first: "\<forall>y \<in> set xs. applies agent iss y \<longrightarrow> dedup_key y \<noteq> dedup_key c"
    show "filter (\<lambda>x. dedup_key x = dedup_key c) (final_list r)
                 = (if check_agent c = None then [c] else [])"
      by (rule first_wins[OF r cs ap first])
    show "c \<in> set (table r)" if "c \<notin> set ys"
      by (rule winner_unmarked[OF d r cs ap first that])
    show "x\<lparr>overriden_by_policy := True\<rparr> \<in> set (table r)"
      if "x \<in> set ys" "applies agent iss x \<and> dedup_key x = dedup_key c \<and> check_agent x \<noteq> None"
      for x
      using that by (intro later_marked[OF d r cs ap]) simp_all
  qed
  show "\<forall>x \<in> set tbl. \<not> applies agent iss x \<longrightarrow> x \<in> set (table r)"
    using unadmitted_unmarked[OF d r] by blast
  show "table r =
         map (\<lambda>x. if (\<exists>xs ys. candidates agent pols tbl = xs @ x # ys \<and> applies agent iss x
                        \<and> check_agent x \<noteq> None
                        \<and> (\<exists>y \<in> set xs. applies agent iss y \<and> dedup_key y = dedup_key x))
                  then x\<lparr>overriden_by_policy := True\<rparr> else x) tbl"
    by (rule table_marks[OF d r])
  show "\<forall>x \<in> set (table r). \<not> managed_by_policy x \<longrightarrow> x \<in> set tbl'"
    using unmanaged_kept[OF c r] by blast
qed

text \<open>
  On a linux agent an enforced policy and the agent itself check the drive \<open>C:\<close>:
  the agent's check comes later in the sequence and is not marked.
\<close>

theorem unadmitted_duplicate_not_marked:
  "candidates linux_agent (stack (Some (scope_policy\<lparr>enforced := True\<rparr>)) None) linux_disk_table
       = [template 1 Diskspace ''C:'' 1, direct 2 Diskspace ''C:'' 1]
   \<and> cascade_policy_checks linux_agent shells (stack (Some (scope_policy\<lparr>enforced := True\<rparr>)) None)
       linux_disk_table = Inr (linux_disk_table, [])
   \<and> direct 2 Diskspace ''C:'' 1 \<in> set linux_disk_table
   \<and> dedup_key (direct 2 Diskspace ''C:'' 1) = dedup_key (template 1 Diskspace ''C:'' 1)
   \<and> \<not> overriden_by_policy (direct 2 Diskspace ''C:'' 1)"
  by (simp add: cascade_checks_defs dedup_key_def example_defs more_example_defs
      linux_disk_table_def)

theorem cascade_policy_checks_precedence_witness:
  "\<exists>r r'. resolve_checks windows_agent shells ping_stack ping_table = Inr r
     \<and> cascade_policy_checks windows_agent shells ping_stack ping_table
         = Inr ([template 1 Ping ''h'' 1, (direct 2 Ping ''h'' 1)\<lparr>overriden_by_policy := True\<rparr>,
                 template 3 Ping ''h'' 2],
                [template 1 Ping ''h'' 1])
     \<and> filter (\<lambda>x. dedup_key x = dedup_key (template 1 Ping ''h'' 1)) (final_list r)
         = [template 1 Ping ''h'' 1]
     \<and> (direct 2 Ping ''h'' 1)\<lparr>overriden_by_policy := True\<rparr> \<in> set (table r)
     \<and> resolve_checks windows_agent shells disk_stack own_disk_table = Inr r'
     \<and> cascade_policy_checks windows_agent shells disk_stack own_disk_table
         = Inr (own_disk_table, [])
     \<and> filter (\<lambda>x. dedup_key x = dedup_key (direct 1 Diskspace ''C:'' 1)) (final_list r') = []
     \<and> direct 1 Diskspace ''C:'' 1 \<in> set (table r')"
proof -
  let ?t1 = "template 1 Ping ''h'' 1" and ?d2 = "direct 2 Ping ''h'' 1"
  let ?t3 = "template 3 Ping ''h'' 2"
  have ev: "cascade_policy_checks windows_agent shells ping_stack ping_table
         = Inr ([?t1, ?d2\<lparr>overriden_by_policy := True\<rparr>, ?t3], [?t1])"
    by (simp add: cascade_checks_defs example_defs ping_stack_def ping_table_def)
  then obtain r where r: "resolve_checks windows_agent shells ping_stack ping_table = Inr r"
    by (elim cascade_policy_checks_Inr)
  have d: "distinct (map check_pk ping_table)"
    by (simp add: ping_table_def example_defs)
  have prem: "candidates windows_agent ping_stack ping_table = [] @ ?t1 # [?d2, ?t3]
      \<and> applies windows_agent shells ?t1
      \<and> (\<forall>y \<in> set []. applies windows_agent shells y \<longrightarrow> dedup_key y \<noteq> dedup_key ?t1)"
    by (simp add: cascade_checks_defs applies_def example_defs ping_stack_def ping_table_def)
  have dup: "?d2 \<in> set [?d2, ?t3] \<and> applies windows_agent shells ?d2
      \<and> dedup_key ?d2 = dedup_key ?t1 \<and> check_agent ?d2 \<noteq> None \<and> check_agent ?t1 = None"
    by (simp add: applies_def dedup_key_def example_defs)
  note p = cascade_policy_checks_precedence[OF d ev r, THEN conjunct2, THEN conjunct2,
      THEN conjunct1, rule_format, OF prem]
  from p dup have one: "filter (\<lambda>x. dedup_key x = dedup_key ?t1) (final_list r) = [?t1]
     \<and> ?d2\<lparr>overriden_by_policy := True\<rparr> \<in> set (table r)"
    by simp
  let ?o1 = "direct 1 Diskspace ''C:'' 1" and ?o2 = "template 2 Diskspace ''C:'' 1"
  let ?o3 = "template 3 Diskspace ''C:'' 2"
  have ev': "cascade_policy_checks windows_agent shells disk_stack own_disk_table
         = Inr (own_disk_table, [])"
    by (simp add: cascade_checks_defs example_defs disk_stack_def own_disk_table_def)
  then obtain r' where r': "resolve_checks windows_agent shells disk_stack own_disk_table = Inr r'"
    by (elim cascade_policy_checks_Inr)
  have d': "distinct (map check_pk own_disk_table)"
    by (simp add: own_disk_table_def example_defs)
  have prem': "candidates windows_agent disk_stack own_disk_table = [] @ ?o1 # [?o2, ?o3]
      \<and> applies windows_agent shells ?o1
      \<and> (\<forall>y \<in> set []. applies windows_agent shells y \<longrightarrow> dedup_key y \<noteq> dedup_key ?o1)"
    by (simp add: cascade_checks_defs applies_def example_defs disk_stack_def own_disk_table_def)
  have own: "check_agent ?o1 \<noteq> None \<and> ?o1 \<notin> set [?o2, ?o3]"
    by (simp add: example_defs)
  note p' = cascade_policy_checks_precedence[OF d' ev' r', THEN conjunct2, THEN conjunct2,
      THEN conjunct1, rule_format, OF prem']
  from p' own have two: "filter (\<lambda>x. dedup_key x = dedup_key ?o1) (final_list r') = []
     \<and> ?o1 \<in> set (table r')"
    by simp
  from r ev one r' ev' two show ?thesis by blast
qed

lemma key_disk:
  assumes "check_type c = Diskspace"
  shows "dedup_key x = dedup_key c \<longleftrightarrow> check_type x = Diskspace \<and> disk x = disk c"
  using assms by (cases "check_type x") (simp_all add: dedup_key_def)

text \<open>
  C6. Per-type deduplication and output order, as the source performs them. The list
  that \<open>cascade_policy_checks\<close> builds is its checks of type diskspace, then ping,
  cpuload, memory, winsvc, script, eventlog; the list returned is that list without the
  templates that a managed check of the agent has as parent. A check is in the list
  exactly when it is a template and the first admitted candidate of its key (the disk,
  the host, the service name, the script's id, the pair of log name and event id, the
  type alone for cpuload and memory), so no two checks of the list have the same key.
  On a windows agent the number of accepted diskspace checks of a drive is one when the
  first candidate of that drive is a template, and zero when it is the agent's own
  check.
\<close>

theorem cascade_policy_checks_order_and_dedup:
  assumes c: "cascade_policy_checks agent iss pols tbl = Inr (tbl', new)"
    and r: "resolve_checks agent iss pols tbl = Inr r"
  shows "candidates agent pols tbl =
       concat (map (\<lambda>pol. case pol of None \<Rightarrow> []
                  | Some p \<Rightarrow> if active p \<and> enforced p
                      then filter (\<lambda>c. policy_pk p \<noteq> None \<and> check_policy c = policy_pk p) tbl
                      else [])
          [agent_policy pols, site_policy pols, client_policy pols, default_policy pols])
       @ filter (\<lambda>c. check_agent c = Some (agent_pk agent) \<and> \<not> managed_by_policy c) tbl
       @ concat (map (\<lambda>pol. case pol of None \<Rightarrow> []
                  | Some p \<Rightarrow> if active p \<and> \<not> enforced p
                      then filter (\<lambda>c. policy_pk p \<noteq> None \<and> check_policy c = policy_pk p) tbl
                      else [])
          [agent_policy pols, site_policy pols, client_policy pols, default_policy pols])
     \<and> final_list r =
         concat (map (\<lambda>t. filter (\<lambda>c. check_type c = t) (final_list r))
           [Diskspace, Ping, Cpuload, Memory, Winsvc, Script, Eventlog])
     \<and> new = filter (\<lambda>c. \<not> (\<exists>m \<in> set tbl. check_agent m = Some (agent_pk agent)
                              \<and> managed_by_policy m \<and> parent_check m = Some (check_pk c)))
                (final_list r)
     \<and> (\<forall>x. x \<in> set (final_list r) \<longleftrightarrow>
           (\<exists>xs ys. candidates agent pols tbl = xs @ x # ys \<and> applies agent iss x
              \<and> check_agent x = None
              \<and> (\<forall>y \<in> set xs. applies agent iss y \<longrightarrow> dedup_key y \<noteq> dedup_key x)))
     \<and> distinct (map dedup_key (final_list r))
     \<and> (plat agent = ''windows'' \<longrightarrow>
          (\<forall>xs c ys. candidates agent pols tbl = xs @ c # ys \<and> check_type c = Diskspace
              \<and> (\<forall>y \<in> set xs. check_type y = Diskspace \<longrightarrow> disk y \<noteq> disk c)
             \<longrightarrow> length (filter (\<lambda>x. check_type x = Diskspace \<and> disk x = disk c)
                           (final_list r))
                   = (if check_agent c = None then 1 else 0)))"
proof (intro conjI)
  show "candidates agent pols tbl =
       concat (map (\<lambda>pol. case pol of None \<Rightarrow> []
                  | Some p \<Rightarrow> if active p \<and> enforced p
                      then filter (\<lambda>c. policy_pk p \<noteq> None \<and> check_policy c = policy_pk p) tbl
                      else [])
          [agent_policy pols, site_policy pols, client_policy pols, default_policy pols])
       @ filter (\<lambda>c. check_agent c = Some (agent_pk agent) \<and> \<not> managed_by_policy c) tbl
       @ concat (map (\<lambda>pol. case pol of None \<Rightarrow> []
                  | Some p \<Rightarrow> if active p \<and> \<not> enforced p
                      then filter (\<lambda>c. policy_pk p \<noteq> None \<and> check_policy c = policy_pk p) tbl
                      else [])
          [agent_policy pols, site_policy pols, client_policy pols, default_policy pols])"
    by (rule candidates_explicit)
  have "final_list r = by_type (final_list r)"
    by (simp add: resolve_checks_loop(2)[OF r] by_type_idem)
  then show "final_list r =
         concat (map (\<lambda>t. filter (\<lambda>c. check_type c = t) (final_list r))
           [Diskspace, Ping, Cpuload, Memory, Winsvc, Script, Eventlog])"
    by (simp only: by_type_def type_order_def)
  from c r have new: "new = filter (\<lambda>check. Some (check_pk check)
      \<notin> set (agent_checks_parent_pks agent tbl)) (final_list r)"
    by (auto elim: cascade_policy_checks_Inr)
  have "Some k \<notin> set (agent_checks_parent_pks agent tbl) \<longleftrightarrow>
      \<not> (\<exists>m \<in> set tbl. check_agent m = Some (agent_pk agent)
                              \<and> managed_by_policy m \<and> parent_check m = Some k)" for k
    by (auto simp: agent_checks_parent_pks_def agentchecks_def image_iff)
  with new show "new = filter (\<lambda>c. \<not> (\<exists>m \<in> set tbl. check_agent m = Some (agent_pk agent)
                              \<and> managed_by_policy m \<and> parent_check m = Some (check_pk c)))
                (final_list r)"
    by simp
  show "\<forall>x. x \<in> set (final_list r) \<longleftrightarrow>
           (\<exists>xs ys. candidates agent pols tbl = xs @ x # ys \<and> applies agent iss x
              \<and> check_agent x = None
              \<and> (\<forall>y \<in> set xs. applies agent iss y \<longrightarrow> dedup_key y \<noteq> dedup_key x))"
    using final_list_iff[OF r] by blast
  show "distinct (map dedup_key (final_list r))"
    by (rule final_list_distinct[OF r])
  show "plat agent = ''windows'' \<longrightarrow>
          (\<forall>xs c ys. candidates agent pols tbl = xs @ c # ys \<and> check_type c = Diskspace
              \<and> (\<forall>y \<in> set xs. check_type y = Diskspace \<longrightarrow> disk y \<noteq> disk c)
             \<longrightarrow> length (filter (\<lambda>x. check_type x = Diskspace \<and> disk x = disk c)
                           (final_list r))
                   = (if check_agent c = None then 1 else 0))"
  proof (intro impI allI, elim conjE)
    fix xs c ys
    assume win: "plat agent = ''windows''"
      and cs: "candidates agent pols tbl = xs @ c # ys" and ty: "check_type c = Diskspace"
      and first: "\<forall>y \<in> set xs. check_type y = Diskspace \<longrightarrow> disk y \<noteq> disk c"
    have ap: "applies agent iss c" using ty win by (simp add: applies_def)
    have f: "\<forall>y \<in> set xs. applies agent iss y \<longrightarrow> dedup_key y \<noteq> dedup_key c"
      using first key_disk[OF ty] by blast
    have "(\<lambda>x. check_type x = Diskspace \<and> disk x = disk c) = (\<lambda>x. dedup_key x = dedup_key c)"
      using key_disk[OF ty] by auto
    with first_wins[OF r cs ap f]
    show "length (filter (\<lambda>x. check_type x = Diskspace \<and> disk x = disk c) (final_list r))
                   = (if check_agent c = None then 1 else 0)"
      by simp
  qed
qed

text \<open>
  Two policies that are not enforced both check the drive \<open>C:\<close> of a windows agent
  that checks it itself: no diskspace check is accepted.
\<close>

theorem own_check_blocks_both_policies:
  "cascade_policy_checks windows_agent shells disk_stack own_disk_table
       = Inr (own_disk_table, [])
   \<and> agent_checks_parent_pks windows_agent own_disk_table = []
   \<and> policy_checks disk_stack own_disk_table
       = [template 2 Diskspace ''C:'' 1, template 3 Diskspace ''C:'' 2]"
  by (simp add: cascade_checks_defs example_defs disk_stack_def own_disk_table_def)

theorem cascade_policy_checks_order_and_dedup_witness:
  "\<exists>r. resolve_checks windows_agent shells ping_stack section8_table = Inr r
     \<and> cascade_policy_checks windows_agent shells ping_stack section8_table
          = Inr ([template 1 Diskspace ''C:'' 1, template 2 Diskspace ''C:'' 2,
                  template 3 Diskspace ''D:'' 2,
                  (direct 4 Diskspace ''C:'' 1)\<lparr>overriden_by_policy := True\<rparr>],
                 [template 1 Diskspace ''C:'' 1, template 3 Diskspace ''D:'' 2])
     \<and> length (filter (\<lambda>x. check_type x = Diskspace \<and> disk x = ''C:'') (final_list r)) = 1"
proof -
  let ?t1 = "template 1 Diskspace ''C:'' 1" and ?t2 = "template 2 Diskspace ''C:'' 2"
  let ?t3 = "template 3 Diskspace ''D:'' 2" and ?d4 = "direct 4 Diskspace ''C:'' 1"
  have ev: "cascade_policy_checks windows_agent shells ping_stack section8_table
          = Inr ([?t1, ?t2, ?t3, ?d4\<lparr>overriden_by_policy := True\<rparr>], [?t1, ?t3])"
    by (simp add: cascade_checks_defs example_defs ping_stack_def section8_table_def)
  then obtain r where r: "resolve_checks windows_agent shells ping_stack section8_table = Inr r"
    by (elim cascade_policy_checks_Inr)
  have win: "plat windows_agent = ''windows''" by (simp add: example_defs)
  have prem: "candidates windows_agent ping_stack section8_table = [] @ ?t1 # [?d4, ?t2, ?t3]
      \<and> check_type ?t1 = Diskspace
      \<and> (\<forall>y \<in> set []. check_type y = Diskspace \<longrightarrow> disk y \<noteq> disk ?t1)"
    by (simp add: cascade_checks_defs example_defs ping_stack_def section8_table_def)
  note p = cascade_policy_checks_order_and_dedup[OF ev r, THEN conjunct2, THEN conjunct2,
      THEN conjunct2, THEN conjunct2, THEN conjunct2, rule_format, OF win prem]
  then have "length (filter (\<lambda>x. check_type x = Diskspace \<and> disk x = ''C:'') (final_list r)) = 1"
    by (simp add: example_defs)
  with r ev show ?thesis by blast
qed

text \<open>
  C7. On an agent that is not a windows agent no diskspace, cpuload, memory, winsvc or
  eventlog check is accepted; on every agent an accepted script check has a script whose
  shell \<open>is_supported_script\<close> admits, and so has every accepted task. The lists
  returned are taken from the accepted ones.
\<close>

theorem cascade_platform_filtering:
  assumes c: "cascade_policy_checks agent iss pols tbl = Inr (tbl', new)"
    and r: "resolve_checks agent iss pols tbl = Inr r"
    and ct: "cascade_policy_tasks agent iss pols ttbl = Inr (ttbl', tnew)"
    and rt: "resolved_tasks agent iss pols ttbl = Inr tasks"
  shows "(plat agent \<noteq> ''windows'' \<longrightarrow>
            (\<forall>c \<in> set (final_list r).
                check_type c \<notin> {Diskspace, Cpuload, Memory, Winsvc, Eventlog}))
     \<and> (\<forall>c \<in> set (final_list r). check_type c = Script \<longrightarrow>
            (\<exists>s. check_script c = Some s \<and> iss agent (shell s)))
     \<and> (\<forall>t \<in> set tasks. \<exists>s. task_script t = Some s \<and> iss agent (shell s))
     \<and> set new \<subseteq> set (final_list r) \<and> set tnew \<subseteq> set tasks"
proof (intro conjI impI ballI)
  fix c assume "plat agent \<noteq> ''windows''" and "c \<in> set (final_list r)"
  with final_list_accepted[OF r, of c]
  show "check_type c \<notin> {Diskspace, Cpuload, Memory, Winsvc, Eventlog}"
    by (cases "check_type c") (simp_all add: applies_def)
next
  fix c assume "c \<in> set (final_list r)" and "check_type c = Script"
  with final_list_accepted[OF r, of c] show "\<exists>s. check_script c = Some s \<and> iss agent (shell s)"
    by (auto simp: applies_def split: option.splits)
next
  fix t assume "t \<in> set tasks"
  with supported_tasks_Inr[OF rt[unfolded resolved_tasks_def]]
  show "\<exists>s. task_script t = Some s \<and> iss agent (shell s)" by auto
next
  from c r show "set new \<subseteq> set (final_list r)"
    by (auto elim!: cascade_policy_checks_Inr)
next
  from ct rt show "set tnew \<subseteq> set tasks"
    by (auto elim!: cascade_policy_tasks_Inr)
qed

theorem cascade_platform_filtering_witness:
  "\<exists>r tasks. resolve_checks linux_agent shells (stack (Some scope_policy) None) linux_table = Inr r
     \<and> resolved_tasks linux_agent shells (stack (Some scope_policy) None) linux_tasks = Inr tasks
     \<and> cascade_policy_checks linux_agent shells (stack (Some scope_policy) None) linux_table
          = Inr (linux_table, [script_template 3 ''shell'' 1])
     \<and> cascade_policy_tasks linux_agent shells (stack (Some scope_policy) None) linux_tasks
          = Inr (linux_tasks, [task_template 2 ''shell'' 1])
     \<and> template 1 Diskspace ''C:'' 1 \<notin> set (final_list r)
     \<and> script_template 2 ''powershell'' 1 \<notin> set (final_list r)
     \<and> task_template 1 ''powershell'' 1 \<notin> set tasks"
proof -
  let ?pols = "stack (Some scope_policy) None"
  have ev: "cascade_policy_checks linux_agent shells ?pols linux_table
          = Inr (linux_table, [script_template 3 ''shell'' 1])"
    by (simp add: cascade_checks_defs example_defs more_example_defs linux_table_def)
  then obtain r where r: "resolve_checks linux_agent shells ?pols linux_table = Inr r"
    by (elim cascade_policy_checks_Inr)
  have evt: "cascade_policy_tasks linux_agent shells ?pols linux_tasks
          = Inr (linux_tasks, [task_template 2 ''shell'' 1])"
    by (simp add: cascade_tasks_defs example_defs more_example_defs linux_tasks_def)
  then obtain tasks where rt: "resolved_tasks linux_agent shells ?pols linux_tasks = Inr tasks"
    by (elim cascade_policy_tasks_Inr)
  note res = cascade_platform_filtering[OF ev r evt rt]
  have lin: "plat linux_agent \<noteq> ''windows''"
    by (simp add: example_defs more_example_defs)
  from res lin have a: "\<forall>c \<in> set (final_list r).
      check_type c \<notin> {Diskspace, Cpuload, Memory, Winsvc, Eventlog}" by blast
  from res have b: "\<forall>c \<in> set (final_list r). check_type c = Script \<longrightarrow>
      (\<exists>s. check_script c = Some s \<and> shells linux_agent (shell s))" by blast
  from res have c: "\<forall>t \<in> set tasks. \<exists>s. task_script t = Some s \<and> shells linux_agent (shell s)"
    by blast
  have "template 1 Diskspace ''C:'' 1 \<notin> set (final_list r)"
  proof
    assume "template 1 Diskspace ''C:'' 1 \<in> set (final_list r)"
    from bspec[OF a this] show False by (simp add: example_defs)
  qed
  moreover have "script_template 2 ''powershell'' 1 \<notin> set (final_list r)"
  proof
    assume "script_template 2 ''powershell'' 1 \<in> set (final_list r)"
    from bspec[OF b this] show False by (simp add: example_defs more_example_defs)
  qed
  moreover have "task_template 1 ''powershell'' 1 \<notin> set tasks"
  proof
    assume "task_template 1 ''powershell'' 1 \<in> set tasks"
    from bspec[OF c this] show False by (simp add: example_defs more_example_defs)
  qed
  ultimately show ?thesis using r rt ev evt by blast
qed

text \<open>
  C9. Every check that \<open>cascade_policy_checks\<close> returns is a template (it has no
  agent), no two of them have the same key, and none is the parent of a managed check
  that the agent had when the call began.
\<close>

theorem cascade_policy_checks_returns_new_templates:
  assumes c: "cascade_policy_checks agent iss pols tbl = Inr (tbl', new)"
  shows "(\<forall>c \<in> set new. check_agent c = None
            \<and> (\<forall>m \<in> set tbl. check_agent m = Some (agent_pk agent) \<and> managed_by_policy m
                  \<longrightarrow> parent_check m \<noteq> Some (check_pk c)))
     \<and> distinct (map dedup_key new)"
proof -
  from c obtain r where r: "resolve_checks agent iss pols tbl = Inr r"
    and new: "new = filter (\<lambda>check. Some (check_pk check)
      \<notin> set (agent_checks_parent_pks agent tbl)) (final_list r)"
    by (elim cascade_policy_checks_Inr)
  have "distinct (map dedup_key new)"
    unfolding new using final_list_distinct[OF r] by (rule distinct_map_filter)
  moreover have "check_agent c = None" if "c \<in> set new" for c
    using that final_list_accepted[OF r, of c] by (simp add: new)
  moreover have "parent_check m \<noteq> Some (check_pk c)"
    if "c \<in> set new" "m \<in> set tbl" "check_agent m = Some (agent_pk agent)" "managed_by_policy m"
    for c m
  proof
    assume "parent_check m = Some (check_pk c)"
    with that(2-4) have "Some (check_pk c) \<in> set (agent_checks_parent_pks agent tbl)"
      by (auto simp: agent_checks_parent_pks_def agentchecks_def image_iff)
    with that(1) show False by (simp add: new)
  qed
  ultimately show ?thesis by blast
qed

theorem cascade_policy_checks_returns_new_templates_witness:
  "cascade_policy_checks windows_agent shells (stack (Some scope_policy) None) half_table
       = Inr (half_table, [template 2 Ping ''g'' 1])
   \<and> check_agent (template 2 Ping ''g'' 1) = None
   \<and> parent_check (managed 3 Ping ''h'' 1 1 Synced) \<noteq> Some (check_pk (template 2 Ping ''g'' 1))"
proof -
  have ev: "cascade_policy_checks windows_agent shells (stack (Some scope_policy) None) half_table
       = Inr (half_table, [template 2 Ping ''g'' 1])"
    by (simp add: cascade_checks_defs example_defs half_table_def)
  have m: "managed 3 Ping ''h'' 1 1 Synced \<in> set half_table
      \<and> check_agent (managed 3 Ping ''h'' 1 1 Synced) = Some (agent_pk windows_agent)
      \<and> managed_by_policy (managed 3 Ping ''h'' 1 1 Synced)"
    by (simp add: half_table_def example_defs)
  from cascade_policy_checks_returns_new_templates[OF ev] m
  have "check_agent (template 2 Ping ''g'' 1) = None
   \<and> parent_check (managed 3 Ping ''h'' 1 1 Synced) \<noteq> Some (check_pk (template 2 Ping ''g'' 1))"
    by auto
  with ev show ?thesis by blast
qed

section \<open>Retirement and revival\<close>

lemma marked_row:
  assumes d: "distinct (map check_pk tbl)" and m: "m \<in> set tbl"
    and x: "x \<in> set (marked M tbl)" "check_pk x = check_pk m"
  shows "x = m \<or> x = m\<lparr>overriden_by_policy := True\<rparr>"
proof -
  from x(1) obtain y where y: "y \<in> set tbl"
    "x = (if y \<in> M then y\<lparr>overriden_by_policy := True\<rparr> else y)"
    by (auto simp: marked_def)
  with x(2) have "check_pk y = check_pk m" by (simp split: if_splits)
  with check_pk_eq[OF d y(1) m] have "y = m" by simp
  with y(2) show ?thesis by (simp split: if_splits)
qed


lemma check_retirement:
  assumes d: "distinct (map check_pk tbl)"
    and c: "cascade_policy_checks agent iss pols tbl = Inr (tbl', new)"
    and r: "resolve_checks agent iss pols tbl = Inr r"
    and m: "m \<in> set tbl" "check_agent m = Some (agent_pk agent)" "managed_by_policy m"
      "parent_check m = Some q" "q \<notin> check_pk ` set (final_list r)"
  shows "check_pk m \<notin> check_pk ` set tbl'"
proof
  assume "check_pk m \<in> check_pk ` set tbl'"
  then obtain x where x: "x \<in> set tbl'" "check_pk x = check_pk m" by auto
  from c r
  have tbl': "tbl' = remove_policy_checks agent (agent_checks_parent_pks agent tbl) (final_list r) (table r)"
    by (auto elim: cascade_policy_checks_Inr)
  from x(1) have xt: "x \<in> set (marked (set (overridden agent iss {} (candidates agent pols tbl))) tbl)"
    and keep: "\<not> (check_agent x = Some (agent_pk agent) \<and> managed_by_policy x
                    \<and> pk_in (parent_check x)
                        (filter (\<lambda>checkpk. checkpk \<notin> set (check_pks (final_list r)))
                           (agent_checks_parent_pks agent tbl)))"
    unfolding tbl' resolve_checks_table[OF d r] remove_policy_checks_def by simp_all
  from marked_row[OF d m(1) xt x(2)] m
  have "check_agent x = Some (agent_pk agent)" "managed_by_policy x" "parent_check x = Some q"
    by auto
  moreover have "Some q \<in> set (agent_checks_parent_pks agent tbl)"
    using m by (auto simp: agent_checks_parent_pks_def agentchecks_def image_iff)
  moreover have "Some q \<notin> set (check_pks (final_list r))"
    using m(5) by (auto simp: check_pks_def)
  ultimately show False using keep by (simp add: pk_in_def)
qed




text \<open>
  C2. Retirement, as the source performs it. A managed task of the agent whose parent template is not among the
  accepted tasks is deleted when it was never synced (\<open>sync_status = initial\<close>), and
  is kept with \<open>sync_status = pendingdeletion\<close> otherwise. A managed check of the
  agent whose parent template is not among the accepted checks is deleted, whatever its
  \<open>sync_status\<close>.
\<close>

theorem retirement_of_managed_items:
  assumes "distinct (map task_pk ttbl)"
    and "cascade_policy_tasks agent iss pols ttbl = Inr (ttbl', tnew)"
    and "resolved_tasks agent iss pols ttbl = Inr tasks"
    and "t \<in> set ttbl" "task_agent t = Some (agent_pk agent)" "task_managed_by_policy t"
      "parent_task t = Some p" "p \<notin> task_pk ` set tasks"
    and "distinct (map check_pk tbl)"
    and "cascade_policy_checks agent iss pols tbl = Inr (tbl', new)"
    and "resolve_checks agent iss pols tbl = Inr r"
    and "m \<in> set tbl" "check_agent m = Some (agent_pk agent)" "managed_by_policy m"
      "parent_check m = Some q" "q \<notin> check_pk ` set (final_list r)"
  shows "(task_sync_status t = Initial \<longrightarrow> task_pk t \<notin> task_pk ` set ttbl')
     \<and> (task_sync_status t \<noteq> Initial \<longrightarrow>
           t\<lparr>task_sync_status := PendingDeletion\<rparr> \<in> set ttbl')
     \<and> check_pk m \<notin> check_pk ` set tbl'"
  using task_retirement[OF assms(1-8)] check_retirement[OF assms(9-16)] by simp

text \<open>
  A check made from template 1, synced, on an agent that no policy applies to: the
  call deletes it at once.
\<close>

theorem synced_check_deleted_outright:
  "cascade_policy_checks windows_agent shells (stack None None)
       [managed 2 Ping ''h'' 1 1 Synced] = Inr ([], [])
   \<and> check_sync_status (managed 2 Ping ''h'' 1 1 Synced) \<noteq> Initial"
  by (simp add: cascade_checks_defs example_defs)

theorem retirement_of_managed_items_witness:
  "cascade_policy_tasks windows_agent shells (stack None None)
       [managed_task 5 1 9 Initial, managed_task 6 1 9 Synced]
     = Inr ([managed_task 6 1 9 PendingDeletion], [])
   \<and> task_pk (managed_task 5 1 9 Initial) \<notin> task_pk ` set [managed_task 6 1 9 PendingDeletion]
   \<and> (managed_task 6 1 9 Synced)\<lparr>task_sync_status := PendingDeletion\<rparr>
        \<in> set [managed_task 6 1 9 PendingDeletion]
   \<and> cascade_policy_checks windows_agent shells (stack None None)
        [managed 2 Ping ''h'' 1 1 Initial] = Inr ([], [])
   \<and> check_pk (managed 2 Ping ''h'' 1 1 Initial) \<notin> check_pk ` set []"
proof -
  let ?pols = "stack None None"
  let ?ttbl = "[managed_task 5 1 9 Initial, managed_task 6 1 9 Synced]"
  let ?tbl = "[managed 2 Ping ''h'' 1 1 Initial]"
  have evt: "cascade_policy_tasks windows_agent shells ?pols ?ttbl
     = Inr ([managed_task 6 1 9 PendingDeletion], [])"
    by (simp add: cascade_tasks_defs example_defs more_example_defs)
  have rt: "resolved_tasks windows_agent shells ?pols ?ttbl = Inr []"
    by (simp add: cascade_tasks_defs example_defs)
  have ev: "cascade_policy_checks windows_agent shells ?pols ?tbl = Inr ([], [])"
    by (simp add: cascade_checks_defs example_defs)
  then obtain r where r: "resolve_checks windows_agent shells ?pols ?tbl = Inr r"
    and "[] = filter (\<lambda>check. Some (check_pk check) \<notin> set (agent_checks_parent_pks windows_agent ?tbl))
                 (final_list r)"
    by (elim cascade_policy_checks_Inr)
  then have fl: "final_list r = []"
    by (simp add: agent_checks_parent_pks_def agentchecks_def example_defs filter_empty_conv
        resolve_checks_loop(2)[OF r] set_by_type candidates_def enforced_checks_def
        policy_checks_def agent_checks_def checks_of_def)
  have dt: "distinct (map task_pk ?ttbl)" by (simp add: more_example_defs)
  have dc: "distinct (map check_pk ?tbl)" by simp
  have t: "managed_task 6 1 9 Synced \<in> set ?ttbl"
    "task_agent (managed_task 6 1 9 Synced) = Some (agent_pk windows_agent)"
    "task_managed_by_policy (managed_task 6 1 9 Synced)"
    "parent_task (managed_task 6 1 9 Synced) = Some 9" "9 \<notin> task_pk ` set []"
    by (simp_all add: more_example_defs example_defs)
  have m: "managed 2 Ping ''h'' 1 1 Initial \<in> set ?tbl"
    "check_agent (managed 2 Ping ''h'' 1 1 Initial) = Some (agent_pk windows_agent)"
    "managed_by_policy (managed 2 Ping ''h'' 1 1 Initial)"
    "parent_check (managed 2 Ping ''h'' 1 1 Initial) = Some 1"
    "1 \<notin> check_pk ` set (final_list r)"
    by (simp_all add: example_defs fl)
  from retirement_of_managed_items[OF dt evt rt t dc ev r m]
  have "(managed_task 6 1 9 Synced)\<lparr>task_sync_status := PendingDeletion\<rparr>
        \<in> set [managed_task 6 1 9 PendingDeletion]
     \<and> check_pk (managed 2 Ping ''h'' 1 1 Initial) \<notin> check_pk ` set []"
    by (simp add: more_example_defs)
  moreover have "task_pk (managed_task 5 1 9 Initial) \<notin> task_pk ` set [managed_task 6 1 9 PendingDeletion]"
    by (simp add: more_example_defs)
  ultimately show ?thesis using evt ev by blast
qed




section \<open>Idempotence of the check resolution\<close>

lemma fold_max_ge: "x \<in> set xs \<Longrightarrow> x \<le> fold max xs (a::nat)"
proof (induction xs arbitrary: a)
  case Nil
  then show ?case by simp
next
  case (Cons y ys)
  have mono: "a \<le> fold max ys a" for a :: nat
    by (induction ys arbitrary: a) (auto intro: order_trans[OF max.cobounded2])
  show ?case
  proof (cases "x = y")
    case True
    then show ?thesis using mono[of "max y a"] by simp
  next
    case False
    with Cons show ?thesis by simp
  qed
qed

lemma fresh_check_pk_new: "fresh_check_pk tbl \<notin> set (map check_pk tbl)"
proof
  assume "fresh_check_pk tbl \<in> set (map check_pk tbl)"
  from fold_max_ge[OF this, of 0] show False by (simp add: fresh_check_pk_def)
qed

lemma fold_create_policy_check:
  assumes "distinct (map check_pk tbl)"
  shows "\<exists>created. fold (\<lambda>check t. create_policy_check check agent t) new tbl = tbl @ created
     \<and> created_for agent new created
     \<and> distinct (map check_pk (tbl @ created))"
  using assms
proof (induction new arbitrary: tbl)
  case Nil
  then show ?case by (simp add: created_for_def check_pks_def)
next
  case (Cons c new)
  let ?row = "c\<lparr>check_pk := fresh_check_pk tbl, check_agent := Some (agent_pk agent),
                    check_policy := None, managed_by_policy := True,
                    parent_check := Some (check_pk c),
                    overriden_by_policy := False, check_sync_status := Initial\<rparr>"
  have d: "distinct (map check_pk (tbl @ [?row]))"
    using Cons.prems fresh_check_pk_new[of tbl] by simp
  from Cons.IH[OF d] obtain created where
    f: "fold (\<lambda>check t. create_policy_check check agent t) new (tbl @ [?row])
          = (tbl @ [?row]) @ created"
    and cr: "created_for agent new created"
    and dd: "distinct (map check_pk ((tbl @ [?row]) @ created))" by blast
  have "fold (\<lambda>check t. create_policy_check check agent t) (c # new) tbl = tbl @ (?row # created)"
    using f by (simp add: create_policy_check_def)
  moreover have "created_for agent (c # new) (?row # created)"
    using cr by (simp add: created_for_def check_pks_def)
  moreover have "distinct (map check_pk (tbl @ (?row # created)))"
    using dd by simp
  ultimately show ?case by blast
qed


lemma filter_keep_map_same:
  assumes "\<And>x. x \<in> set xs \<Longrightarrow> P (F x) = P x \<and> (P x \<longrightarrow> F x = x \<and> keep x)"
  shows "filter P (filter keep (map F xs)) = filter P xs"
  using assms by (induction xs) auto

lemma filter_keep_map_image:
  assumes "\<And>x. x \<in> set xs \<Longrightarrow> P (F x) = P x \<and> (P x \<longrightarrow> keep (F x))"
  shows "filter P (filter keep (map F xs)) = map F (filter P xs)"
  using assms by (induction xs) auto

text \<open>A change of the rows that the loop does not look at changes nothing in its run.\<close>

lemma accepted_map:
  assumes "\<And>x. dedup_key (G x) = dedup_key x" "\<And>x. applies agent iss (G x) = applies agent iss x"
    "\<And>x. check_agent (G x) = check_agent x"
  shows "accepted agent iss S (map G cs) = map G (accepted agent iss S cs)"
  by (induction cs arbitrary: S) (simp_all add: assms)

lemma overridden_map:
  assumes "\<And>x. dedup_key (G x) = dedup_key x" "\<And>x. applies agent iss (G x) = applies agent iss x"
    "\<And>x. check_agent (G x) = check_agent x"
  shows "overridden agent iss S (map G cs) = map G (overridden agent iss S cs)"
  by (induction cs arbitrary: S) (simp_all add: assms)

lemma mark_in_simps:
  "dedup_key (mark_in M x) = dedup_key x" "applies agent iss (mark_in M x) = applies agent iss x"
  "check_agent (mark_in M x) = check_agent x" "raises (mark_in M x) = raises x"
  "check_policy (mark_in M x) = check_policy x" "managed_by_policy (mark_in M x) = managed_by_policy x"
  "parent_check (mark_in M x) = parent_check x" "check_pk (mark_in M x) = check_pk x"
  by (simp_all add: mark_in_def dedup_key_def applies_def raises_def split: check_type.splits)

lemma marked_mark_in: "marked M tbl = map (mark_in M) tbl"
  by (simp add: marked_def mark_in_def)

lemma policychecks_agent:
  assumes "\<forall>c \<in> set tbl. check_policy c \<noteq> None \<longrightarrow> check_agent c = None"
    and "x \<in> set (checks_of enf tbl pol)"
  shows "check_agent x = None \<and> x \<in> set tbl"
  using assms by (auto simp: checks_of_def policychecks_def split: option.splits if_splits)

lemma cascade_policy_checks_closed:
  assumes d: "distinct (map check_pk tbl)"
    and nr: "list_all (\<lambda>c. \<not> raises c) (candidates agent pols tbl)"
  shows "cascade_policy_checks agent iss pols tbl =
     Inr (remove_policy_checks agent (agent_checks_parent_pks agent tbl)
            (by_type (accepted agent iss {} (candidates agent pols tbl)))
            (marked (set (overridden agent iss {} (candidates agent pols tbl))) tbl),
          filter (\<lambda>check. Some (check_pk check) \<notin> set (agent_checks_parent_pks agent tbl))
            (by_type (accepted agent iss {} (candidates agent pols tbl))))"
proof -
  from resolve_checks_total[OF nr, of iss] obtain r where
    r: "resolve_checks agent iss pols tbl = Inr r" by blast
  show ?thesis
    by (simp add: cascade_policy_checks_def r resolve_checks_loop(2)[OF r]
        resolve_checks_table[OF d r])
qed


lemma check_resolution_idempotent:
  assumes d: "distinct (map check_pk tbl)"
    and wf: "\<forall>c \<in> set tbl. check_policy c \<noteq> None \<longrightarrow> check_agent c = None"
    and g: "generate_policy_checks agent iss pols tbl = Inr tbl1"
  shows "cascade_policy_checks agent iss pols tbl1 = Inr (tbl1, [])"
proof -
  let ?cs = "candidates agent pols tbl"
  let ?M = "set (overridden agent iss {} ?cs)"
  let ?FL = "by_type (accepted agent iss {} ?cs)"
  let ?P0 = "agent_checks_parent_pks agent tbl"
  let ?stale = "\<lambda>P. filter (\<lambda>checkpk. checkpk \<notin> set (check_pks ?FL)) P"
  let ?keep = "\<lambda>P c. \<not> (check_agent c = Some (agent_pk agent) \<and> managed_by_policy c
                    \<and> pk_in (parent_check c) (?stale P))"
  let ?T2 = "filter (?keep ?P0) (map (mark_in ?M) tbl)"
  let ?new = "filter (\<lambda>check. Some (check_pk check) \<notin> set ?P0) ?FL"
  from g obtain tbl' new where c: "cascade_policy_checks agent iss pols tbl = Inr (tbl', new)"
    and tbl1: "tbl1 = fold (\<lambda>check t. create_policy_check check agent t) new tbl'"
    by (auto simp: generate_policy_checks_def split: sum.splits)
  from c obtain r where r: "resolve_checks agent iss pols tbl = Inr r"
    by (elim cascade_policy_checks_Inr)
  note nr = resolve_checks_loop(1)[OF r]
  from c cascade_policy_checks_closed[OF d nr, of iss]
  have tbl': "tbl' = ?T2" and new: "new = ?new"
    by (simp_all add: remove_policy_checks_def marked_mark_in)
  have dT2: "distinct (map check_pk ?T2)"
    using d by (simp add: distinct_map_filter mark_in_simps comp_def)
  from fold_create_policy_check[OF dT2, of agent ?new] obtain created where
    t1: "tbl1 = ?T2 @ created" and cr: "created_for agent ?new created"
    and d1: "distinct (map check_pk tbl1)"
    unfolding tbl1 tbl' new by auto
  from cr have crp: "map parent_check created = check_pks ?new"
    and cra: "\<And>x. x \<in> set created \<Longrightarrow> check_agent x = Some (agent_pk agent)
                \<and> check_policy x = None \<and> managed_by_policy x"
    by (auto simp: created_for_def list_all_iff)
  \<comment> \<open>the marked checks belong to an agent\<close>
  have M: "mark_in ?M x = x" if "check_agent x = None" for x
  proof -
    have "x \<notin> ?M" using overridden_sub[of x agent iss "{}" ?cs] that by auto
    then show ?thesis by (simp add: mark_in_def)
  qed
  \<comment> \<open>the policies' checks are the same\<close>
  have pc: "checks_of enf tbl1 pol = checks_of enf tbl pol" for enf pol
  proof -
    have pp: "policychecks tbl1 p = policychecks tbl p" for p
    proof -
      have "filter (\<lambda>c. policy_pk p \<noteq> None \<and> check_policy c = policy_pk p) created = []"
        using cra by (auto simp: filter_empty_conv)
      moreover have "filter (\<lambda>c. policy_pk p \<noteq> None \<and> check_policy c = policy_pk p) ?T2
        = filter (\<lambda>c. policy_pk p \<noteq> None \<and> check_policy c = policy_pk p) tbl"
        by (rule filter_keep_map_same) (use wf M in \<open>auto simp: mark_in_simps\<close>)
      ultimately show ?thesis by (simp add: t1 policychecks_def)
    qed
    show ?thesis by (cases pol) (simp_all add: checks_of_def pp)
  qed
  \<comment> \<open>the agent's own checks are the same, but for the mark\<close>
  have ac: "agent_checks agent tbl1 = map (mark_in ?M) (agent_checks agent tbl)"
  proof -
    let ?P = "\<lambda>c. check_agent c = Some (agent_pk agent) \<and> \<not> managed_by_policy c"
    have "filter ?P created = []" using cra by (auto simp: filter_empty_conv)
    moreover have "filter ?P ?T2 = map (mark_in ?M) (filter ?P tbl)"
      by (rule filter_keep_map_image) (auto simp: mark_in_simps)
    ultimately show ?thesis
      by (simp add: agent_checks_def agentchecks_def t1 conj_commute)
  qed
  have cs1: "candidates agent pols tbl1 = map (mark_in ?M) ?cs"
  proof -
    have "map (mark_in ?M) (checks_of enf tbl pol) = checks_of enf tbl pol" for enf pol
      by (rule map_idI) (use policychecks_agent[OF wf] M in blast)
    then show ?thesis
      by (simp add: candidates_def enforced_checks_def policy_checks_def pc ac)
  qed
  have nr1: "list_all (\<lambda>c. \<not> raises c) (candidates agent pols tbl1)"
    using nr by (simp add: cs1 list_all_iff mark_in_simps)
  have acc1: "accepted agent iss {} (candidates agent pols tbl1) = accepted agent iss {} ?cs"
  proof -
    have "map (mark_in ?M) (accepted agent iss {} ?cs) = accepted agent iss {} ?cs"
      by (rule map_idI) (use accepted_sub[of _ agent iss "{}" ?cs] M in blast)
    then show ?thesis
      by (simp add: cs1 accepted_map[of "mark_in ?M"] mark_in_simps)
  qed
  have ov1: "overridden agent iss {} (candidates agent pols tbl1)
      = map (mark_in ?M) (overridden agent iss {} ?cs)"
    by (simp add: cs1 overridden_map[of "mark_in ?M"] mark_in_simps)
  \<comment> \<open>the second run marks what is marked\<close>
  have mk1: "marked (set (overridden agent iss {} (candidates agent pols tbl1))) tbl1 = tbl1"
    unfolding marked_def ov1
    by (rule map_idI) (auto simp: mark_in_def)
  \<comment> \<open>the parents of the managed checks are accepted templates\<close>
  let ?P1 = "agent_checks_parent_pks agent tbl1"
  have P1: "set ?P1 = parent_check ` {y \<in> set ?T2. check_agent y = Some (agent_pk agent)
      \<and> managed_by_policy y} \<union> set (check_pks ?new)"
  proof -
    have "filter managed_by_policy (filter (\<lambda>c. check_agent c = Some (agent_pk agent)) created)
        = created"
      using cra by (auto simp: filter_id_conv)
    then have "?P1 = map parent_check
          (filter managed_by_policy (filter (\<lambda>c. check_agent c = Some (agent_pk agent)) ?T2))
        @ check_pks ?new"
      by (simp add: agent_checks_parent_pks_def agentchecks_def t1 crp)
    then show ?thesis by (simp only: set_append set_map set_filter) blast
  qed
  have P0: "set ?P0 = parent_check ` {x \<in> set tbl. check_agent x = Some (agent_pk agent)
      \<and> managed_by_policy x}"
    by (auto simp: agent_checks_parent_pks_def agentchecks_def)
  have good: "q = None \<or> q \<in> set (check_pks ?FL)" if "q \<in> set ?P1" for q
  proof -
    from that P1 consider y where "y \<in> set ?T2" "check_agent y = Some (agent_pk agent)"
      "managed_by_policy y" "q = parent_check y" | "q \<in> set (check_pks ?new)" by auto
    then show ?thesis
    proof cases
      case 1
      from 1(1) obtain x where x: "x \<in> set tbl" "y = mark_in ?M x" by auto
      with 1 have "q \<in> set ?P0" unfolding P0 by (auto simp: mark_in_simps)
      moreover from 1 have "\<not> pk_in q (?stale ?P0)" by auto
      ultimately show ?thesis by (auto simp: pk_in_def)
    next
      case 2
      then show ?thesis by (auto simp: check_pks_def)
    qed
  qed
  have rm1: "remove_policy_checks agent ?P1 ?FL tbl1 = tbl1"
  proof -
    have "\<not> pk_in v (?stale ?P1)" for v
      using good[of v] by (auto simp: pk_in_def)
    then show ?thesis by (simp add: remove_policy_checks_def)
  qed
  have new1: "filter (\<lambda>check. Some (check_pk check) \<notin> set ?P1) ?FL = []"
  proof -
    have "Some (check_pk c) \<in> set ?P1" if c: "c \<in> set ?FL" for c
    proof (cases "Some (check_pk c) \<in> set ?P0")
      case True
      then obtain x where x: "x \<in> set tbl" "check_agent x = Some (agent_pk agent)"
        "managed_by_policy x" "parent_check x = Some (check_pk c)"
        unfolding P0 by force
      have "Some (check_pk c) \<in> set (check_pks ?FL)" using c by (auto simp: check_pks_def)
      then have "\<not> pk_in (Some (check_pk c)) (?stale ?P0)" by (simp add: pk_in_def)
      with x have k: "?keep ?P0 (mark_in ?M x)" by (simp add: mark_in_simps)
      have "mark_in ?M x \<in> mark_in ?M ` set tbl" using x(1) by (rule imageI)
      with k have "mark_in ?M x \<in> set ?T2" by simp
      with x have "mark_in ?M x \<in> {y \<in> set ?T2. check_agent y = Some (agent_pk agent)
          \<and> managed_by_policy y}"
        by (simp add: mark_in_simps)
      then have "parent_check (mark_in ?M x) \<in> parent_check ` {y \<in> set ?T2.
          check_agent y = Some (agent_pk agent) \<and> managed_by_policy y}" by (rule imageI)
      then have "Some (check_pk c) \<in> parent_check ` {y \<in> set ?T2.
          check_agent y = Some (agent_pk agent) \<and> managed_by_policy y}"
        by (simp only: mark_in_simps x(4))
      then show ?thesis unfolding P1 by (rule UnI1)
    next
      case False
      with c have "c \<in> set ?new" by simp
      then have "Some (check_pk c) \<in> set (check_pks ?new)"
        unfolding check_pks_def by (simp only: set_map image_eqI)
      then show ?thesis unfolding P1 by blast
    qed
    then show ?thesis by (auto simp: filter_empty_conv)
  qed
  from cascade_policy_checks_closed[OF d1 nr1, of iss] show ?thesis
    by (simp only: acc1 mk1 rm1 new1)
qed

section \<open>Idempotence of the task resolution\<close>

lemma fresh_task_pk_new: "fresh_task_pk tbl \<notin> set (map task_pk tbl)"
proof
  assume "fresh_task_pk tbl \<in> set (map task_pk tbl)"
  from fold_max_ge[OF this, of 0] show False by (simp add: fresh_task_pk_def)
qed

lemma fold_create_policy_task:
  assumes "distinct (map task_pk tbl)"
  shows "\<exists>created. fold (\<lambda>task t. create_policy_task task agent t) new tbl = tbl @ created
     \<and> created_tasks_for agent new created
     \<and> distinct (map task_pk (tbl @ created))"
  using assms
proof (induction new arbitrary: tbl)
  case Nil
  then show ?case by (simp add: created_tasks_for_def task_pks_def)
next
  case (Cons c new)
  let ?row = "c\<lparr>task_pk := fresh_task_pk tbl, task_agent := Some (agent_pk agent),
                    task_policy := None, task_managed_by_policy := True,
                    parent_task := Some (task_pk c), task_sync_status := Initial\<rparr>"
  have d: "distinct (map task_pk (tbl @ [?row]))"
    using Cons.prems fresh_task_pk_new[of tbl] by simp
  from Cons.IH[OF d] obtain created where
    f: "fold (\<lambda>task t. create_policy_task task agent t) new (tbl @ [?row])
          = (tbl @ [?row]) @ created"
    and cr: "created_tasks_for agent new created"
    and dd: "distinct (map task_pk ((tbl @ [?row]) @ created))" by blast
  have "fold (\<lambda>task t. create_policy_task task agent t) (c # new) tbl = tbl @ (?row # created)"
    using f by (simp add: create_policy_task_def)
  moreover have "created_tasks_for agent (c # new) (?row # created)"
    using cr by (simp add: created_tasks_for_def task_pks_def)
  moreover have "distinct (map task_pk (tbl @ (?row # created)))"
    using dd by simp
  ultimately show ?case by blast
qed

lemma filter_map_keep_same:
  assumes "\<And>x. x \<in> set xs \<Longrightarrow> P (F x) = P x \<and> (P x \<longrightarrow> F x = x \<and> keep x)"
  shows "filter P (map F (filter keep xs)) = filter P xs"
  using assms by (induction xs) auto

lemma retire_in_simps:
  "task_pk (retire_in Q t) = task_pk t" "task_agent (retire_in Q t) = task_agent t"
  "task_policy (retire_in Q t) = task_policy t" "parent_task (retire_in Q t) = parent_task t"
  "task_managed_by_policy (retire_in Q t) = task_managed_by_policy t"
  by (simp_all add: retire_in_def)

lemma revive_in_simps:
  "task_pk (revive_in agent tasks t) = task_pk t"
  "task_agent (revive_in agent tasks t) = task_agent t"
  "task_policy (revive_in agent tasks t) = task_policy t"
  "parent_task (revive_in agent tasks t) = parent_task t"
  "task_managed_by_policy (revive_in agent tasks t) = task_managed_by_policy t"
  by (simp_all add: revive_in_def)

lemma cascade_policy_tasks_closed:
  assumes d: "distinct (map task_pk tbl)"
    and r: "resolved_tasks agent iss pols tbl = Inr tasks"
  shows "cascade_policy_tasks agent iss pols tbl =
     Inr (map (\<lambda>t. revive_in agent tasks (retire_in (set (stale_tasks agent tasks tbl)) t))
            (filter (\<lambda>t. \<not> (t \<in> set (stale_tasks agent tasks tbl) \<and> task_sync_status t = Initial))
               tbl),
          filter (\<lambda>task. Some (task_pk task) \<notin> set (agent_tasks_parent_pks agent tbl)) tasks)"
  by (simp add: cascade_policy_tasks_def r remove_policy_tasks_retired[OF d] retired_def
      revive_tasks_def revive_in_def retire_in_def comp_def)


lemma task_resolution_idempotent:
  assumes d: "distinct (map task_pk tbl)"
    and wf: "\<forall>t \<in> set tbl. task_policy t \<noteq> None \<longrightarrow> task_agent t = None"
    and g: "generate_policy_tasks agent iss pols tbl = Inr tbl1"
  shows "cascade_policy_tasks agent iss pols tbl1 = Inr (tbl1, [])"
proof -
  from g obtain tbl' new where c: "cascade_policy_tasks agent iss pols tbl = Inr (tbl', new)"
    and tbl1: "tbl1 = fold (\<lambda>task t. create_policy_task task agent t) new tbl'"
    by (auto simp: generate_policy_tasks_def split: sum.splits)
  from c obtain tasks where r: "resolved_tasks agent iss pols tbl = Inr tasks"
    by (elim cascade_policy_tasks_Inr)
  let ?Q = "set (stale_tasks agent tasks tbl)"
  let ?H = "\<lambda>t. revive_in agent tasks (retire_in ?Q t)"
  let ?K = "\<lambda>t. \<not> (t \<in> ?Q \<and> task_sync_status t = Initial)"
  let ?R2 = "map ?H (filter ?K tbl)"
  let ?P0 = "agent_tasks_parent_pks agent tbl"
  let ?new = "filter (\<lambda>task. Some (task_pk task) \<notin> set ?P0) tasks"
  let ?A = "Some (agent_pk agent)"
  from c cascade_policy_tasks_closed[OF d r]
  have tbl': "tbl' = ?R2" and new: "new = ?new" by simp_all
  have dR2: "distinct (map task_pk ?R2)"
    using d by (simp add: distinct_map_filter revive_in_simps retire_in_simps comp_def)
  from fold_create_policy_task[OF dR2, of agent ?new] obtain created where
    t1: "tbl1 = ?R2 @ created" and cr: "created_tasks_for agent ?new created"
    and d1: "distinct (map task_pk tbl1)"
    unfolding tbl1 tbl' new by auto
  from cr have crp: "map parent_task created = task_pks ?new"
    and cra: "\<And>x. x \<in> set created \<Longrightarrow> task_agent x = ?A \<and> task_policy x = None
                \<and> task_managed_by_policy x \<and> task_sync_status x = Initial"
    by (auto simp: created_tasks_for_def list_all_iff)
  have Hs: "task_pk (?H t) = task_pk t" "task_agent (?H t) = task_agent t"
    "task_policy (?H t) = task_policy t" "parent_task (?H t) = parent_task t"
    "task_managed_by_policy (?H t) = task_managed_by_policy t" for t
    by (simp_all add: revive_in_simps retire_in_simps)
  have Qa: "task_agent t = ?A" if "t \<in> ?Q" for t
    using that by (simp add: stale_tasks_iff)
  have Hid: "?H t = t" if "task_agent t \<noteq> ?A" for t
    using that Qa[of t] by (auto simp: revive_in_def retire_in_def)
  \<comment> \<open>a created row has an accepted parent\<close>
  have crparent: "\<exists>p. parent_task x = Some p \<and> p \<in> task_pk ` set tasks" if "x \<in> set created" for x
  proof -
    from that have "parent_task x \<in> set (map parent_task created)" by simp
    then show ?thesis unfolding crp by (auto simp: task_pks_def)
  qed
  \<comment> \<open>the policies' tasks are the same\<close>
  have at: "autotasks tbl1 p = autotasks tbl p" for p
  proof -
    let ?P = "\<lambda>t. policy_pk p \<noteq> None \<and> task_policy t = policy_pk p"
    have "filter ?P created = []" using cra by (auto simp: filter_empty_conv)
    moreover have "filter ?P ?R2 = filter ?P tbl"
    proof (rule filter_map_keep_same, intro conjI impI)
      fix x assume "x \<in> set tbl"
      show "?P (?H x) = ?P x" by (simp add: Hs)
      assume "?P x"
      with wf \<open>x \<in> set tbl\<close> have n: "task_agent x = None" by auto
      then show "?H x = x" by (intro Hid) simp
      from n Qa[of x] show "?K x" by auto
    qed
    ultimately show ?thesis by (simp add: autotasks_def t1)
  qed
  have apt: "add_policy_tasks tbl1 pol ts = add_policy_tasks tbl pol ts" for pol ts
    by (cases pol) (simp_all add: add_policy_tasks_def at)
  have "policy_tasks pols tbl1 = policy_tasks pols tbl"
    by (simp add: policy_tasks_def apt)
  with r have r1: "resolved_tasks agent iss pols tbl1 = Inr tasks"
    by (simp add: resolved_tasks_def)
  \<comment> \<open>the parents of the agent's managed tasks\<close>
  let ?P1 = "agent_tasks_parent_pks agent tbl1"
  have P1: "set ?P1 = parent_task ` {y \<in> set ?R2. task_agent y = ?A \<and> task_managed_by_policy y}
      \<union> set (task_pks ?new)"
  proof -
    have "filter task_managed_by_policy (filter (\<lambda>t. task_agent t = ?A) created) = created"
      using cra by (auto simp: filter_id_conv)
    then have "?P1 = map parent_task
          (filter task_managed_by_policy (filter (\<lambda>t. task_agent t = ?A) ?R2))
        @ task_pks ?new"
      by (simp add: agent_tasks_parent_pks_def agent_autotasks_def t1 crp)
    then show ?thesis by (simp only: set_append set_map set_filter) blast
  qed
  \<comment> \<open>the rows that the second run retires wait for deletion already\<close>
  have Q2: "task_sync_status x = PendingDeletion" if x: "x \<in> set (stale_tasks agent tasks tbl1)" for x
  proof -
    from x obtain p m where xin: "x \<in> set tbl1" and xa: "task_agent x = ?A"
      and xp: "parent_task x = Some p" and p: "p \<notin> task_pk ` set tasks"
      and m: "m \<in> set tbl1" "task_agent m = ?A" "task_managed_by_policy m" "parent_task m = Some p"
      unfolding stale_tasks_iff by blast
    from xin xp p crparent[of x] have "x \<in> set ?R2" by (auto simp: t1)
    then obtain z where z: "z \<in> set tbl" "?K z" "x = ?H z" by auto
    from m p crparent[of m] have "m \<in> set ?R2" by (auto simp: t1)
    then obtain m0 where m0: "m0 \<in> set tbl" "m = ?H m0" by auto
    from z xa xp m0 m p have "z \<in> ?Q"
      unfolding stale_tasks_iff by (auto simp: Hs)
    moreover have "\<not> pk_in (parent_task z) (task_pks tasks)"
      using z(3) xp p by (auto simp: Hs pk_in_def task_pks_def)
    ultimately show ?thesis using z(3) by (simp add: revive_in_def retire_in_def)
  qed
  have rem1: "remove_policy_tasks agent tasks tbl1 = tbl1"
  proof -
    have "retired (set (stale_tasks agent tasks tbl1)) tbl1 = tbl1"
      unfolding retired_def
    proof -
      have f: "filter (\<lambda>t. \<not> (t \<in> set (stale_tasks agent tasks tbl1) \<and> task_sync_status t = Initial)) tbl1
          = tbl1"
        using Q2 by (auto simp: filter_id_conv)
      have "map (\<lambda>t. if t \<in> set (stale_tasks agent tasks tbl1)
                     then t\<lparr>task_sync_status := PendingDeletion\<rparr> else t) tbl1 = tbl1"
        by (rule map_idI) (use Q2 in auto)
      with f show "map (\<lambda>t. if t \<in> set (stale_tasks agent tasks tbl1)
                     then t\<lparr>task_sync_status := PendingDeletion\<rparr> else t)
          (filter (\<lambda>t. \<not> (t \<in> set (stale_tasks agent tasks tbl1) \<and> task_sync_status t = Initial)) tbl1)
         = tbl1" by simp
    qed
    then show ?thesis by (simp add: remove_policy_tasks_retired[OF d1])
  qed
  \<comment> \<open>no row is left to revive\<close>
  have rev1: "revive_tasks agent tasks tbl1 = tbl1"
  proof -
    have "revive_in agent tasks x = x" if "x \<in> set tbl1" for x
    proof -
      from that consider "x \<in> set created" | y where "x = revive_in agent tasks y"
        by (auto simp: t1)
      then show ?thesis
      proof cases
        case 1
        with cra[of x] show ?thesis by (simp add: revive_in_def)
      next
        case 2
        then show ?thesis by (simp add: revive_in_def)
      qed
    qed
    then have "map (revive_in agent tasks) tbl1 = tbl1" by (intro map_idI)
    then show ?thesis by (simp add: revive_tasks_def revive_in_def[abs_def])
  qed
  have new1: "filter (\<lambda>task. Some (task_pk task) \<notin> set ?P1) tasks = []"
  proof -
    have "Some (task_pk t) \<in> set ?P1" if t: "t \<in> set tasks" for t
    proof (cases "Some (task_pk t) \<in> set ?P0")
      case True
      then obtain x where x: "x \<in> set tbl" "task_agent x = ?A"
        "task_managed_by_policy x" "parent_task x = Some (task_pk t)"
        by (auto simp: agent_tasks_parent_pks_def agent_autotasks_def)
      have "x \<notin> ?Q" using x(4) t by (auto simp: stale_tasks_iff)
      with x(1) have "?H x \<in> set ?R2" by simp
      with x have "?H x \<in> {y \<in> set ?R2. task_agent y = ?A \<and> task_managed_by_policy y}"
        by (simp add: Hs)
      then have "parent_task (?H x) \<in> parent_task ` {y \<in> set ?R2. task_agent y = ?A
          \<and> task_managed_by_policy y}" by (rule imageI)
      then have "Some (task_pk t) \<in> parent_task ` {y \<in> set ?R2. task_agent y = ?A
          \<and> task_managed_by_policy y}"
        by (simp only: Hs x(4))
      then show ?thesis unfolding P1 by (rule UnI1)
    next
      case False
      with t have "t \<in> set ?new" by simp
      then have "Some (task_pk t) \<in> set (task_pks ?new)"
        unfolding task_pks_def by (simp only: set_map image_eqI)
      then show ?thesis unfolding P1 by blast
    qed
    then show ?thesis by (auto simp: filter_empty_conv)
  qed
  show ?thesis
    by (simp add: cascade_policy_tasks_def r1 rem1 rev1 new1)
qed


lemma generate_policy_checks_again:
  assumes "cascade_policy_checks agent iss pols tbl1 = Inr (tbl1, [])"
  shows "generate_policy_checks agent iss pols tbl1 = Inr tbl1"
  using assms by (simp add: generate_policy_checks_def)

lemma generate_policy_tasks_again:
  assumes "cascade_policy_tasks agent iss pols tbl1 = Inr (tbl1, [])"
  shows "generate_policy_tasks agent iss pols tbl1 = Inr tbl1"
  using assms by (simp add: generate_policy_tasks_def)

text \<open>
  C5. Idempotence: when \<open>generate_policy_checks\<close> (the cascade and the creation of
  the checks it returns) has run on an agent, a second run of the cascade with the same
  policies returns no check and leaves the table of checks as it is, so that a second
  \<open>generate_policy_checks\<close> changes nothing; the same holds of the tasks. The tables
  have distinct primary keys, and a row of a policy belongs to no agent.
\<close>

theorem resolution_idempotent:
  assumes "distinct (map check_pk tbl)"
    and "\<forall>c \<in> set tbl. check_policy c \<noteq> None \<longrightarrow> check_agent c = None"
    and "generate_policy_checks agent iss pols tbl = Inr tbl1"
    and "distinct (map task_pk ttbl)"
    and "\<forall>t \<in> set ttbl. task_policy t \<noteq> None \<longrightarrow> task_agent t = None"
    and "generate_policy_tasks agent iss pols ttbl = Inr ttbl1"
  shows "cascade_policy_checks agent iss pols tbl1 = Inr (tbl1, [])
     \<and> generate_policy_checks agent iss pols tbl1 = Inr tbl1
     \<and> cascade_policy_tasks agent iss pols ttbl1 = Inr (ttbl1, [])
     \<and> generate_policy_tasks agent iss pols ttbl1 = Inr ttbl1"
  using check_resolution_idempotent[OF assms(1-3)] task_resolution_idempotent[OF assms(4-6)]
  by (simp add: generate_policy_checks_again generate_policy_tasks_again)

theorem resolution_idempotent_witness:
  "generate_policy_checks windows_agent shells (stack (Some scope_policy) None) half_table
       = Inr (half_table @ [managed 4 Ping ''g'' 1 2 Initial])
   \<and> cascade_policy_checks windows_agent shells (stack (Some scope_policy) None)
         (half_table @ [managed 4 Ping ''g'' 1 2 Initial])
       = Inr (half_table @ [managed 4 Ping ''g'' 1 2 Initial], [])
   \<and> generate_policy_tasks windows_agent shells (stack (Some scope_policy) None) stale_tasks_table
       = Inr [task_template 1 ''cmd'' 1, managed_task 2 1 9 PendingDeletion,
              (task_template 1 ''cmd'' 1)\<lparr>task_pk := 3, task_agent := Some 1,
                 task_policy := None, task_managed_by_policy := True,
                 parent_task := Some 1, task_sync_status := Initial\<rparr>]
   \<and> cascade_policy_tasks windows_agent shells (stack (Some scope_policy) None)
         [task_template 1 ''cmd'' 1, managed_task 2 1 9 PendingDeletion,
          (task_template 1 ''cmd'' 1)\<lparr>task_pk := 3, task_agent := Some 1,
             task_policy := None, task_managed_by_policy := True,
             parent_task := Some 1, task_sync_status := Initial\<rparr>]
       = Inr ([task_template 1 ''cmd'' 1, managed_task 2 1 9 PendingDeletion,
               (task_template 1 ''cmd'' 1)\<lparr>task_pk := 3, task_agent := Some 1,
                  task_policy := None, task_managed_by_policy := True,
                  parent_task := Some 1, task_sync_status := Initial\<rparr>], [])"
proof -
  let ?pols = "stack (Some scope_policy) None"
  have g: "generate_policy_checks windows_agent shells ?pols half_table
       = Inr (half_table @ [managed 4 Ping ''g'' 1 2 Initial])"
    by (simp add: generate_policy_checks_def create_policy_check_def fresh_check_pk_def
        cascade_checks_defs example_defs half_table_def)
  have gt: "generate_policy_tasks windows_agent shells ?pols stale_tasks_table
       = Inr [task_template 1 ''cmd'' 1, managed_task 2 1 9 PendingDeletion,
              (task_template 1 ''cmd'' 1)\<lparr>task_pk := 3, task_agent := Some 1,
                 task_policy := None, task_managed_by_policy := True,
                 parent_task := Some 1, task_sync_status := Initial\<rparr>]"
    by (simp add: generate_policy_tasks_def create_policy_task_def fresh_task_pk_def
        cascade_tasks_defs example_defs more_example_defs stale_tasks_table_def)
  have d: "distinct (map check_pk half_table)"
    by (simp add: half_table_def example_defs)
  have wf: "\<forall>c \<in> set half_table. check_policy c \<noteq> None \<longrightarrow> check_agent c = None"
    by (simp add: half_table_def example_defs)
  have dt: "distinct (map task_pk stale_tasks_table)"
    by (simp add: stale_tasks_table_def more_example_defs)
  have wft: "\<forall>t \<in> set stale_tasks_table. task_policy t \<noteq> None \<longrightarrow> task_agent t = None"
    by (simp add: stale_tasks_table_def more_example_defs)
  from resolution_idempotent[OF d wf g dt wft gt] g gt show ?thesis by simp
qed

end
